theory Spec2Isabelle
  imports Main "HOL-Library.AList" "HOL-Library.Char_ord" "HOL-Library.List_Lexorder"
begin

section \<open>Strings\<close>

text \<open>
  Python strings are modelled as ASCII \<^typ>\<open>string\<close>s.  \<open>lower\<close> is \<open>str.lower()\<close>,
  \<open>is_word_chr\<close> is the regular-expression class \<open>\w\<close>, \<open>is_space_chr\<close> is \<open>\s\<close> and
  \<open>is_digit_chr\<close> is \<open>\d\<close>, each restricted to ASCII.
\<close>

definition upper_letters :: string where
  "upper_letters = ''ABCDEFGHIJKLMNOPQRSTUVWXYZ''"

definition lower_letters :: string where
  "lower_letters = ''abcdefghijklmnopqrstuvwxyz''"

definition digit_chars :: string where
  "digit_chars = ''0123456789''"

definition space_chars :: string where
  "space_chars = [CHR 0x09, CHR 0x0A, CHR 0x0B, CHR 0x0C, CHR 0x0D,
                  CHR 0x1C, CHR 0x1D, CHR 0x1E, CHR 0x1F, CHR 0x20]"

definition lower_chr :: "char \<Rightarrow> char" where
  "lower_chr c = (case map_of (zip upper_letters lower_letters) c of Some d \<Rightarrow> d | None \<Rightarrow> c)"

definition lower :: "string \<Rightarrow> string" where
  "lower s = map lower_chr s"

definition is_digit_chr :: "char \<Rightarrow> bool" where
  "is_digit_chr c = (c \<in> set digit_chars)"

definition is_word_chr :: "char \<Rightarrow> bool" where
  "is_word_chr c = (c \<in> set (lower_letters @ upper_letters @ digit_chars @ ''_''))"

definition is_space_chr :: "char \<Rightarrow> bool" where
  "is_space_chr c = (c \<in> set space_chars)"

text \<open>\<open>starts_with p s\<close> is \<open>s.startswith(p)\<close>; \<open>contains_str a b\<close> is Python's \<open>a in b\<close>.\<close>

fun starts_with :: "string \<Rightarrow> string \<Rightarrow> bool" where
  "starts_with [] s = True"
| "starts_with (p # ps) [] = False"
| "starts_with (p # ps) (c # cs) = (p = c \<and> starts_with ps cs)"

fun contains_str :: "string \<Rightarrow> string \<Rightarrow> bool" where
  "contains_str a [] = (a = [])"
| "contains_str a (c # cs) = (starts_with a (c # cs) \<or> contains_str a cs)"

text \<open>
  \<open>re.split(r'\W+', s)\<close>: the pieces of \<open>s\<close> between maximal runs of non-word characters.
  A separator at the start or the end of \<open>s\<close> leaves an empty piece there, and the empty
  string splits into one empty piece.  The flag says that the previous character was a
  separator; the second argument is the current piece, reversed.
\<close>

fun split_W :: "bool \<Rightarrow> string \<Rightarrow> string \<Rightarrow> string list" where
  "split_W sep cur [] = [rev cur]"
| "split_W sep cur (c # cs) =
     (if is_word_chr c then split_W False (c # cur) cs
      else if sep then split_W True cur cs
      else rev cur # split_W True [] cs)"

definition re_split_W :: "string \<Rightarrow> string list" where
  "re_split_W s = split_W False [] s"

text \<open>Truthiness of an optional string: \<open>None\<close> and the empty string are falsy.\<close>

fun truthy :: "string option \<Rightarrow> bool" where
  "truthy None = False"
| "truthy (Some s) = (s \<noteq> [])"

section \<open>Venue index (\<open>EventImporter.load_existing_data\<close>)\<close>

text \<open>
  A row of \<open>SELECT id, name, location FROM businesses\<close>.  A Python \<open>dict\<close> is an association
  list in insertion order: \<^const>\<open>AList.update\<close> overwrites the value of a present key in
  place and appends an absent key, and \<^const>\<open>map_of\<close> looks a key up.
\<close>

type_synonym business = "int \<times> string option \<times> string option"

record venue_index =
  business_by_name :: "(string \<times> int) list"
  business_by_location :: "(string \<times> int) list"
  business_keywords :: "(string \<times> int list) list"

definition build_business_by_name :: "business list \<Rightarrow> (string \<times> int) list" where
  "build_business_by_name bs =
     fold (\<lambda>(business_id, name, location) d.
             if truthy name then AList.update (lower (the name)) business_id d else d) bs []"

definition build_business_by_location :: "business list \<Rightarrow> (string \<times> int) list" where
  "build_business_by_location bs =
     fold (\<lambda>(business_id, name, location) d.
             if truthy location then AList.update (lower (the location)) business_id d else d) bs []"

definition kw_ids :: "(string \<times> int list) list \<Rightarrow> string \<Rightarrow> int list" where
  "kw_ids kw word = (case map_of kw word of None \<Rightarrow> [] | Some ids \<Rightarrow> ids)"

definition add_keyword :: "int \<Rightarrow> string \<Rightarrow> (string \<times> int list) list \<Rightarrow> (string \<times> int list) list" where
  "add_keyword business_id word kw = AList.update word (kw_ids kw word @ [business_id]) kw"

definition name_keywords :: "string \<Rightarrow> string list" where
  "name_keywords name = filter (\<lambda>w. length w > 3) (re_split_W (lower name))"

definition build_business_keywords :: "business list \<Rightarrow> (string \<times> int list) list" where
  "build_business_keywords bs =
     fold (\<lambda>(business_id, name, location) kw.
             if truthy name then fold (add_keyword business_id) (name_keywords (the name)) kw
             else kw) bs []"

definition load_index :: "business list \<Rightarrow> venue_index" where
  "load_index bs = \<lparr> business_by_name = build_business_by_name bs,
                     business_by_location = build_business_by_location bs,
                     business_keywords = build_business_keywords bs \<rparr>"

section \<open>Ingestion-time matcher (\<open>EventImporter._find_matching_business\<close>)\<close>

text \<open>
  \<open>business_id\<close> starts as \<open>None\<close>; the guards between the methods are \<open>not business_id\<close>,
  which holds for \<open>None\<close> and also for the id \<open>0\<close>.
\<close>

fun falsy_id :: "int option \<Rightarrow> bool" where
  "falsy_id None = True"
| "falsy_id (Some b) = (b = 0)"

text \<open>Method 1: direct match on the location.\<close>

definition method1 :: "venue_index \<Rightarrow> string option \<Rightarrow> int option" where
  "method1 idx event_location =
     (if truthy event_location
      then map_of (business_by_location idx) (lower (the event_location))
      else None)"

text \<open>The loop of methods 2 and 3: the first business name contained in the text.\<close>

fun first_contained :: "(string \<times> int) list \<Rightarrow> string \<Rightarrow> int option" where
  "first_contained [] text = None"
| "first_contained ((business_name, b_id) # rest) text =
     (if contains_str business_name text then Some b_id else first_contained rest text)"

definition method2 :: "venue_index \<Rightarrow> string option \<Rightarrow> int option \<Rightarrow> int option" where
  "method2 idx event_location business_id =
     (if falsy_id business_id \<and> truthy event_location
      then (case first_contained (business_by_name idx) (lower (the event_location)) of
              Some b \<Rightarrow> Some b | None \<Rightarrow> business_id)
      else business_id)"

definition method3 :: "venue_index \<Rightarrow> string option \<Rightarrow> int option \<Rightarrow> int option" where
  "method3 idx event_name business_id =
     (if falsy_id business_id \<and> truthy event_name
      then (case first_contained (business_by_name idx) (lower (the event_name)) of
              Some b \<Rightarrow> Some b | None \<Rightarrow> business_id)
      else business_id)"

text \<open>
  Method 4, the keyword fallback.  \<open>potential_matches\<close> is a dict from business id to
  points; \<open>points_of\<close> is \<open>potential_matches.get(b_id, 0)\<close>.
\<close>

definition points_of :: "(int \<times> int) list \<Rightarrow> int \<Rightarrow> int" where
  "points_of pm b_id = (case map_of pm b_id of None \<Rightarrow> 0 | Some p \<Rightarrow> p)"

definition add_points :: "int \<Rightarrow> int \<Rightarrow> (int \<times> int) list \<Rightarrow> (int \<times> int) list" where
  "add_points weight b_id pm = AList.update b_id (points_of pm b_id + weight) pm"

definition score_words ::
  "(string \<times> int list) list \<Rightarrow> int \<Rightarrow> string list \<Rightarrow> (int \<times> int) list \<Rightarrow> (int \<times> int) list" where
  "score_words kw weight ws pm =
     fold (\<lambda>word pm. case map_of kw word of
                        Some ids \<Rightarrow> fold (add_points weight) ids pm
                      | None \<Rightarrow> pm) ws pm"

definition keyword_points ::
  "(string \<times> int list) list \<Rightarrow> string option \<Rightarrow> string option \<Rightarrow> (int \<times> int) list" where
  "keyword_points kw event_name event_location =
     (let pm1 = (if truthy event_location
                 then score_words kw 2 (re_split_W (lower (the event_location))) []
                 else []);
          pm2 = (if truthy event_name
                 then score_words kw 1 (re_split_W (lower (the event_name))) pm1
                 else pm1)
      in pm2)"

text \<open>\<open>max(items, key=lambda x: x[1])\<close>: the first item with the greatest points.\<close>

fun max_item :: "(int \<times> int) \<Rightarrow> (int \<times> int) list \<Rightarrow> (int \<times> int)" where
  "max_item best [] = best"
| "max_item best (x # xs) = max_item (if snd x > snd best then x else best) xs"

definition keyword_match ::
  "(string \<times> int list) list \<Rightarrow> string option \<Rightarrow> string option \<Rightarrow> int option" where
  "keyword_match kw event_name event_location =
     (case keyword_points kw event_name event_location of
        [] \<Rightarrow> None
      | x # xs \<Rightarrow> (let best_match = max_item x xs
                   in if snd best_match \<ge> 2 then Some (fst best_match) else None))"

definition method4 :: "venue_index \<Rightarrow> string option \<Rightarrow> string option \<Rightarrow> int option \<Rightarrow> int option" where
  "method4 idx event_name event_location business_id =
     (if falsy_id business_id
      then (case keyword_match (business_keywords idx) event_name event_location of
              Some b \<Rightarrow> Some b | None \<Rightarrow> business_id)
      else business_id)"

definition find_matching_business :: "venue_index \<Rightarrow> string option \<Rightarrow> string option \<Rightarrow> int option" where
  "find_matching_business idx event_name event_location =
     method4 idx event_name event_location
       (method3 idx event_name
         (method2 idx event_location
           (method1 idx event_location)))"

section \<open>Ingestion (\<open>EventImporter.import_events_from_scraper\<close>)\<close>

text \<open>
  A scraped event is a dict with the keys below; \<open>event.get(k)\<close> is \<open>None\<close> for an absent key.
  A row of the \<open>events\<close> table is the tuple that the importer appends to \<open>events_to_import\<close>.
\<close>

record raw_event =
  Name :: "string option"
  Date :: "string option"
  Time :: "string option"
  Location :: "string option"
  Description :: "string option"
  URL :: "string option"
  Image_URL :: "string option"
  Source :: "string option"

record event_row =
  row_id :: int
  row_name :: string
  row_date :: "string option"
  row_time :: "string option"
  row_location :: "string option"
  row_description :: "string option"
  row_url :: "string option"
  row_image_url :: "string option"
  row_source :: string
  row_business_id :: "int option"

record database =
  db_events :: "event_row list"
  db_businesses :: "business list"

record import_state =
  imported_count :: int
  duplicate_count :: int
  business_match_count :: int
  events_to_import :: "event_row list"

text \<open>\<open>event.get(k) if event.get(k) else None\<close>\<close>

definition clean_field :: "string option \<Rightarrow> string option" where
  "clean_field v = (if truthy v then v else None)"

text \<open>\<open>SELECT name, date FROM events\<close>, as a set of pairs.\<close>

definition row_key :: "event_row \<Rightarrow> string \<times> string option" where
  "row_key r = (row_name r, row_date r)"

definition load_existing_events :: "database \<Rightarrow> (string \<times> string option) set" where
  "load_existing_events db = set (map row_key (db_events db))"

text \<open>\<open>SELECT MAX(id) FROM events\<close>: \<open>None\<close> on an empty table.\<close>

definition max_id :: "event_row list \<Rightarrow> int option" where
  "max_id rows = (case rows of [] \<Rightarrow> None | r # rs \<Rightarrow> Some (fold max (map row_id rs) (row_id r)))"

definition next_event_id :: "database \<Rightarrow> int" where
  "next_event_id db = (case max_id (db_events db) of Some m \<Rightarrow> m + 1 | None \<Rightarrow> 0)"

text \<open>The body of the loop over the scraped events.\<close>

definition process_event ::
  "venue_index \<Rightarrow> (string \<times> string option) set \<Rightarrow> string \<Rightarrow> int \<Rightarrow> raw_event \<Rightarrow>
   import_state \<Rightarrow> import_state" where
  "process_event idx existing_events scraper_name next_id event st =
     (case clean_field (Name event) of
        None \<Rightarrow> st
      | Some name \<Rightarrow>
          (let date = clean_field (Date event);
               time = clean_field (Time event);
               location = clean_field (Location event);
               description = clean_field (Description event);
               url = clean_field (URL event);
               image_url = clean_field (Image_URL event);
               source = (if truthy (Source event) then the (Source event) else scraper_name)
           in if (name, date) \<in> existing_events
              then st\<lparr>duplicate_count := duplicate_count st + 1\<rparr>
              else
                (let business_id = find_matching_business idx (Some name) location
                 in st\<lparr>business_match_count :=
                          (if business_id \<noteq> None then business_match_count st + 1
                           else business_match_count st),
                        events_to_import := events_to_import st @
                          [\<lparr>row_id = next_id + imported_count st, row_name = name,
                            row_date = date, row_time = time, row_location = location,
                            row_description = description, row_url = url,
                            row_image_url = image_url, row_source = source,
                            row_business_id = business_id\<rparr>],
                        imported_count := imported_count st + 1\<rparr>)))"

definition initial_state :: import_state where
  "initial_state = \<lparr>imported_count = 0, duplicate_count = 0, business_match_count = 0,
                     events_to_import = []\<rparr>"

text \<open>
  One run over the events that the scraper returned, on a database that can be read and
  written: the statistics of the run and the database after the batch insert.
\<close>

definition process_events :: "database \<Rightarrow> string \<Rightarrow> raw_event list \<Rightarrow> import_state" where
  "process_events db scraper_name events =
     fold (process_event (load_index (db_businesses db)) (load_existing_events db)
             scraper_name (next_event_id db)) events initial_state"

definition import_events_from_scraper ::
  "database \<Rightarrow> string \<Rightarrow> raw_event list \<Rightarrow> database \<times> import_state" where
  "import_events_from_scraper db scraper_name events =
     (if events = [] then (db, initial_state)
      else (let st = process_events db scraper_name events
            in (if events_to_import st \<noteq> []
                then db\<lparr>db_events := db_events db @ events_to_import st\<rparr>
                else db, st)))"

definition has_name :: "raw_event \<Rightarrow> bool" where
  "has_name e = (clean_field (Name e) \<noteq> None)"

definition event_key :: "raw_event \<Rightarrow> string \<times> string option" where
  "event_key e = (the (clean_field (Name e)), clean_field (Date e))"

section \<open>Dataset matcher (\<open>create_venue_connections\<close>)\<close>

text \<open>
  \<open>fuzz.partial_ratio\<close> belongs to the library \<open>thefuzz\<close>; it is a parameter \<open>pr\<close> of the
  model, an integer score for two strings.  A business is a row of the businesses CSV:
  its name and its location, \<open>None\<close> for a missing value (pandas \<open>NaN\<close>).  In the loops
  below every name is a string; \<open>create_venue_connections\<close>, at the end of this section, is
  the function on catalogs with missing names too.  The matched business is identified by
  its row index.
\<close>

datatype match_type = location_to_name | location_to_location | name_to_name

record match_state =
  best_match :: "string option"
  best_score :: int
  match_type :: "match_type option"
  match_index :: int

text \<open>\<open>re.sub(r'[^\w\s]', '', s).lower()\<close>\<close>

definition clean :: "string \<Rightarrow> string" where
  "clean s = lower (filter (\<lambda>c. is_word_chr c \<or> is_space_chr c) s)"

text \<open>The body shared by the three loops: \<open>if score > threshold and score > best_score: ...\<close>\<close>

definition consider_candidate ::
  "int \<Rightarrow> match_type \<Rightarrow> int \<Rightarrow> string \<Rightarrow> int \<Rightarrow> match_state \<Rightarrow> match_state" where
  "consider_candidate threshold ty j name score st =
     (if score > threshold \<and> score > best_score st
      then \<lparr>best_match = Some name, best_score = score, match_type = Some ty, match_index = j\<rparr>
      else st)"

definition pass_location_to_name ::
  "(string \<Rightarrow> string \<Rightarrow> int) \<Rightarrow> string list \<Rightarrow> string \<Rightarrow> match_state \<Rightarrow> match_state" where
  "pass_location_to_name pr business_names clean_location st =
     fold (\<lambda>(j, business_name) st.
             if business_name \<noteq> [] \<and> length business_name > 3
             then consider_candidate 80 location_to_name (int j) (business_names ! j)
                    (pr clean_location business_name) st
             else st)
          (enumerate 0 (map clean business_names)) st"

definition pass_location_to_location ::
  "(string \<Rightarrow> string \<Rightarrow> int) \<Rightarrow> string list \<Rightarrow> string option list \<Rightarrow> string \<Rightarrow>
   match_state \<Rightarrow> match_state" where
  "pass_location_to_location pr business_names business_locations clean_location st =
     fold (\<lambda>(j, business_loc) st.
             if truthy business_loc
             then consider_candidate 80 location_to_location (int j) (business_names ! j)
                    (pr clean_location (clean (the business_loc))) st
             else st)
          (enumerate 0 business_locations) st"

definition pass_name_to_name ::
  "(string \<Rightarrow> string \<Rightarrow> int) \<Rightarrow> string list \<Rightarrow> string \<Rightarrow> match_state \<Rightarrow> match_state" where
  "pass_name_to_name pr business_names clean_event_name st =
     fold (\<lambda>(j, business_name) st.
             if business_name \<noteq> [] \<and> length business_name > 3
             then consider_candidate 85 name_to_name (int j) (business_names ! j)
                    (pr clean_event_name business_name) st
             else st)
          (enumerate 0 (map clean business_names)) st"

definition no_match :: match_state where
  "no_match = \<lparr>best_match = None, best_score = 0, match_type = None, match_index = - 1\<rparr>"

text \<open>
  The three passes for one event whose location is not empty, and the body of the loop
  over the events: \<open>Some (index, type, score)\<close> is what is written to the columns
  \<open>Business_ID\<close>, \<open>Business_Match_Type\<close> and \<open>Business_Match_Score\<close>, and \<open>None\<close> leaves
  them empty.
\<close>

definition run_passes ::
  "(string \<Rightarrow> string \<Rightarrow> int) \<Rightarrow> (string \<times> string option) list \<Rightarrow> string \<Rightarrow> string \<Rightarrow> match_state" where
  "run_passes pr businesses event_name location =
     (let business_names = map fst businesses;
          business_locations = map snd businesses;
          clean_location = clean location;
          st1 = pass_location_to_name pr business_names clean_location no_match;
          st2 = (if \<not> truthy (best_match st1)
                 then pass_location_to_location pr business_names business_locations
                        clean_location st1
                 else st1);
          st3 = (if \<not> truthy (best_match st2)
                 then pass_name_to_name pr business_names (clean event_name) st2
                 else st2)
      in st3)"

definition match_event ::
  "(string \<Rightarrow> string \<Rightarrow> int) \<Rightarrow> (string \<times> string option) list \<Rightarrow>
   string option \<Rightarrow> string option \<Rightarrow> (int \<times> match_type option \<times> int) option" where
  "match_event pr businesses event_Name event_Location =
     (let location = (case event_Location of Some l \<Rightarrow> l | None \<Rightarrow> []);
          event_name = (case event_Name of Some n \<Rightarrow> n | None \<Rightarrow> [])
      in if location = [] then None
         else (let st = run_passes pr businesses event_name location
               in if truthy (best_match st) \<and> match_index st \<ge> 0
                  then Some (match_index st, match_type st, best_score st)
                  else None))"




section \<open>Dates (Python's \<open>datetime\<close>)\<close>

text \<open>
  A date is a year, a month and a day of the proleptic Gregorian calendar; \<open>toordinal\<close>
  is the day number that \<open>datetime\<close> computes with, so that \<open>(a - b).days\<close> is the
  difference of two ordinals.  \<open>add_days d n\<close> is \<open>d + timedelta(days=n)\<close> for \<open>n \<ge> 0\<close>:
  the date \<open>n\<close> days later.
\<close>

record date =
  year :: nat
  month :: nat
  day :: nat

definition is_leap :: "nat \<Rightarrow> bool" where
  "is_leap y = (y mod 4 = 0 \<and> (y mod 100 \<noteq> 0 \<or> y mod 400 = 0))"

definition days_in_month :: "nat \<Rightarrow> nat \<Rightarrow> nat" where
  "days_in_month y m =
     (if m = 2 then (if is_leap y then 29 else 28)
      else if m = 4 \<or> m = 6 \<or> m = 9 \<or> m = 11 then 30 else 31)"

definition valid_date :: "date \<Rightarrow> bool" where
  "valid_date d = (1 \<le> year d \<and> year d \<le> 9999 \<and> 1 \<le> month d \<and> month d \<le> 12 \<and>
                   1 \<le> day d \<and> day d \<le> days_in_month (year d) (month d))"

definition days_before_year :: "nat \<Rightarrow> nat" where
  "days_before_year y = (let y1 = y - 1 in y1 * 365 + y1 div 4 - y1 div 100 + y1 div 400)"

definition days_before_month :: "nat \<Rightarrow> nat \<Rightarrow> nat" where
  "days_before_month y m =
     [0, 31, 59, 90, 120, 151, 181, 212, 243, 273, 304, 334] ! (m - 1) +
     (if m > 2 \<and> is_leap y then 1 else 0)"

definition toordinal :: "date \<Rightarrow> nat" where
  "toordinal d = days_before_year (year d) + days_before_month (year d) (month d) + day d"

definition days_between :: "date \<Rightarrow> date \<Rightarrow> int" where
  "days_between a b = int (toordinal a) - int (toordinal b)"

definition next_day :: "date \<Rightarrow> date" where
  "next_day d =
     (if day d < days_in_month (year d) (month d) then d\<lparr>day := day d + 1\<rparr>
      else if month d < 12 then d\<lparr>month := month d + 1, day := 1\<rparr>
      else \<lparr>year = year d + 1, month = 1, day = 1\<rparr>)"

fun add_days :: "date \<Rightarrow> nat \<Rightarrow> date" where
  "add_days d 0 = d"
| "add_days d (Suc n) = add_days (next_day d) n"

text \<open>Decimal output and input: \<open>str(n)\<close>, the format \<open>{n:0kd}\<close>, and \<open>int(s)\<close> on digits.\<close>

definition digit_chr :: "nat \<Rightarrow> char" where
  "digit_chr n = digit_chars ! n"

fun show_nat :: "nat \<Rightarrow> string" where
  "show_nat n = (if n < 10 then [digit_chr n] else show_nat (n div 10) @ [digit_chr (n mod 10)])"

declare show_nat.simps [simp del]

definition zfill :: "nat \<Rightarrow> string \<Rightarrow> string" where
  "zfill k s = replicate (k - length s) (CHR ''0'') @ s"

definition fmt_0d :: "nat \<Rightarrow> nat \<Rightarrow> string" where
  "fmt_0d k n = zfill k (show_nat n)"

definition digit_val :: "char \<Rightarrow> nat" where
  "digit_val c = length (takeWhile (\<lambda>d. d \<noteq> c) digit_chars)"

definition int_of_digits :: "string \<Rightarrow> nat" where
  "int_of_digits s = foldl (\<lambda>a c. 10 * a + digit_val c) 0 s"

definition isdigit :: "string \<Rightarrow> bool" where
  "isdigit s = (s \<noteq> [] \<and> list_all is_digit_chr s)"

text \<open>\<open>strftime('%Y-%m-%d')\<close>, for the years 1000 to 9999, which have four digits.\<close>

definition strftime :: "date \<Rightarrow> string" where
  "strftime d = fmt_0d 4 (year d) @ ''-'' @ fmt_0d 2 (month d) @ ''-'' @ fmt_0d 2 (day d)"

definition month_names :: "string list" where
  "month_names = [''January'', ''February'', ''March'', ''April'', ''May'', ''June'', ''July'',
                  ''August'', ''September'', ''October'', ''November'', ''December'']"

definition month_abbrs :: "string list" where
  "month_abbrs = [''Jan'', ''Feb'', ''Mar'', ''Apr'', ''May'', ''Jun'', ''Jul'', ''Aug'', ''Sep'',
                  ''Oct'', ''Nov'', ''Dec'']"

text \<open>\<open>datetime.strptime(month[:3], '%b').month\<close>: the number of the month, if there is one.\<close>

fun index_of :: "'a \<Rightarrow> 'a list \<Rightarrow> nat \<Rightarrow> nat option" where
  "index_of x [] i = None"
| "index_of x (y # ys) i = (if x = y then Some i else index_of x ys (Suc i))"

definition month_num :: "string \<Rightarrow> nat option" where
  "month_num name = index_of (lower (take 3 name)) (map lower month_abbrs) 1"

section \<open>Regular expressions (Python's \<open>re\<close>)\<close>

text \<open>
  The fragment of \<open>re\<close> that the date patterns use, with the backtracking order of the
  library: \<open>matches\<close> lists every way a pattern matches a prefix of the text, the preferred
  way first (greedy repetition, the alternatives from left to right, an optional part
  taken before it is left out), each with the text that remains and the groups captured.
  \<open>Cls P lo hi\<close> repeats a character class between \<open>lo\<close> and \<open>hi\<close> times; the flag is
  \<open>re.IGNORECASE\<close>.  \<open>re_search\<close> is \<open>re.search\<close>: the leftmost match, as the matched
  text (\<open>group(0)\<close>) and \<open>groups()\<close>.
\<close>

datatype regex =
    Lit string
  | Cls "char \<Rightarrow> bool" nat "nat option"
  | Seq regex regex
  | Alt regex regex
  | Opt regex
  | Grp nat regex

definition upper_chr :: "char \<Rightarrow> char" where
  "upper_chr c = (case map_of (zip lower_letters upper_letters) c of Some d \<Rightarrow> d | None \<Rightarrow> c)"

definition lit_match :: "bool \<Rightarrow> string \<Rightarrow> string \<Rightarrow> bool" where
  "lit_match ci l s =
     (length l \<le> length s \<and>
      (if ci then lower l = lower (take (length l) s) else l = take (length l) s))"

definition cls_match :: "bool \<Rightarrow> (char \<Rightarrow> bool) \<Rightarrow> char \<Rightarrow> bool" where
  "cls_match ci P c = (P c \<or> (ci \<and> (P (lower_chr c) \<or> P (upper_chr c))))"

fun matches ::
  "bool \<Rightarrow> regex \<Rightarrow> string \<times> string option list \<Rightarrow> (string \<times> string option list) list" where
  "matches ci (Lit l) (s, g) = (if lit_match ci l s then [(drop (length l) s, g)] else [])"
| "matches ci (Cls P lo hi) (s, g) =
     (let avail = length (takeWhile (cls_match ci P) s);
          n = (case hi of None \<Rightarrow> avail | Some h \<Rightarrow> min avail h)
      in if n < lo then [] else map (\<lambda>k. (drop k s, g)) (rev [lo..<Suc n]))"
| "matches ci (Seq a b) st = concat (map (matches ci b) (matches ci a st))"
| "matches ci (Alt a b) st = matches ci a st @ matches ci b st"
| "matches ci (Opt a) st = matches ci a st @ [st]"
| "matches ci (Grp i a) (s, g) =
     map (\<lambda>(s', g'). (s', g'[i := Some (take (length s - length s') s)])) (matches ci a (s, g))"

fun re_search :: "bool \<Rightarrow> regex \<Rightarrow> nat \<Rightarrow> string \<Rightarrow> (string \<times> string option list) option" where
  "re_search ci r n [] =
     (case matches ci r ([], replicate n None) of
        (rest, g) # _ \<Rightarrow> Some ([], g)
      | [] \<Rightarrow> None)"
| "re_search ci r n (c # cs) =
     (case matches ci r (c # cs, replicate n None) of
        (rest, g) # _ \<Rightarrow> Some (take (length (c # cs) - length rest) (c # cs), g)
      | [] \<Rightarrow> re_search ci r n cs)"

fun seqs :: "regex list \<Rightarrow> regex" where
  "seqs [] = Lit []"
| "seqs [r] = r"
| "seqs (r # rs) = Seq r (seqs rs)"

fun alts :: "string list \<Rightarrow> regex" where
  "alts [] = Cls (\<lambda>c. False) 1 None"
| "alts [l] = Lit l"
| "alts (l # ls) = Alt (Lit l) (alts ls)"

section \<open>Date extraction of the scraper (\<open>HolyCitySinnerScraper\<close>)\<close>

text \<open>The parts shared by the date patterns of \<open>scrape_event\<close>.\<close>

definition ordinal_suffix :: regex where
  "ordinal_suffix = Opt (alts [''st'', ''nd'', ''rd'', ''th''])"

definition optional_year :: "nat \<Rightarrow> regex" where
  "optional_year i =
     Opt (seqs [Opt (Lit '',''), Cls is_space_chr 1 None, Grp i (Cls is_digit_chr 4 (Some 4))])"

definition digits_1_2 :: regex where
  "digits_1_2 = Cls is_digit_chr 1 (Some 2)"

text \<open>
  \<open>date_patterns\<close>, in the order of the source: month name and day, abbreviated month and
  day, day before month, \<open>MM/DD/YYYY\<close>, \<open>YYYY-MM-DD\<close>.
\<close>

definition date_patterns :: "regex list" where
  "date_patterns =
     [seqs [Grp 0 (alts month_names), Cls is_space_chr 1 None, Grp 1 digits_1_2,
            ordinal_suffix, optional_year 2],
      seqs [Grp 0 (alts month_abbrs), Cls (\<lambda>c. c \<in> set lower_letters) 0 None, Opt (Lit ''.''),
            Cls is_space_chr 1 None, Grp 1 digits_1_2, ordinal_suffix, optional_year 2],
      seqs [Grp 0 digits_1_2, ordinal_suffix, Cls is_space_chr 1 None,
            Opt (seqs [Lit ''of'', Cls is_space_chr 1 None]), Grp 1 (alts month_names),
            optional_year 2],
      seqs [Grp 0 digits_1_2, Lit ''/'', Grp 1 digits_1_2, Lit ''/'',
            Grp 2 (Cls is_digit_chr 4 (Some 4))],
      seqs [Grp 0 (Cls is_digit_chr 4 (Some 4)), Lit ''-'', Grp 1 digits_1_2, Lit ''-'',
            Grp 2 digits_1_2]]"

text \<open>The loop \<open>for pattern in date_patterns\<close> up to its \<open>break\<close>: the first pattern that matches.\<close>

fun first_match :: "regex list \<Rightarrow> string \<Rightarrow> (string \<times> string option list) option" where
  "first_match [] text = None"
| "first_match (p # ps) text =
     (case re_search True p 3 text of Some m \<Rightarrow> Some m | None \<Rightarrow> first_match ps text)"

text \<open>
  \<open>f"{year}-{month_num:02d}-{int(day):02d}"\<close>, where \<open>year\<close> is the matched text or, when the
  group is empty, the current year.
\<close>

definition year_or_current :: "string option \<Rightarrow> nat \<Rightarrow> string" where
  "year_or_current y current_year = (if truthy y then the y else show_nat current_year)"

definition format_date_text :: "string \<Rightarrow> nat \<Rightarrow> nat \<Rightarrow> string" where
  "format_date_text y m d = y @ ''-'' @ fmt_0d 2 m @ ''-'' @ fmt_0d 2 d"

text \<open>The branches that turn the groups of the match into \<open>date_text\<close>.\<close>

definition date_from_groups :: "nat \<Rightarrow> string \<times> string option list \<Rightarrow> string option" where
  "date_from_groups current_year m =
     (case m of (group0, groups) \<Rightarrow>
       (case groups of
          [g0, g1, g2] \<Rightarrow>
            (if g0 \<in> Some ` set month_names \<or> g0 \<in> Some ` set month_abbrs
             then (case month_num (the g0) of
                     Some mn \<Rightarrow> Some (format_date_text (year_or_current g2 current_year) mn
                                        (int_of_digits (the g1)))
                   | None \<Rightarrow> None)
             else if g1 \<in> Some ` set month_names
             then (case month_num (the g1) of
                     Some mn \<Rightarrow> Some (format_date_text (year_or_current g2 current_year) mn
                                        (int_of_digits (the g0)))
                   | None \<Rightarrow> None)
             else if list_all (\<lambda>g. truthy g \<and> isdigit (the g)) groups
             then (if CHR ''/'' \<in> set group0
                   then Some (format_date_text (the g2) (int_of_digits (the g0))
                                (int_of_digits (the g1)))
                   else Some (format_date_text (the g0) (int_of_digits (the g1))
                                (int_of_digits (the g2))))
             else None)
        | _ \<Rightarrow> None))"

text \<open>The date in the URL: \<open>occ_dtstart=YYYY-MM-DDThh:mm\<close>.\<close>

definition occ_dtstart_pattern :: regex where
  "occ_dtstart_pattern =
     seqs [Lit ''occ_dtstart='',
           Grp 0 (seqs [Cls is_digit_chr 4 (Some 4), Lit ''-'', Cls is_digit_chr 2 (Some 2),
                        Lit ''-'', Cls is_digit_chr 2 (Some 2)]),
           Lit ''T'',
           Grp 1 (seqs [Cls is_digit_chr 2 (Some 2), Lit '':'', Cls is_digit_chr 2 (Some 2)])]"

definition url_date_text :: "string \<Rightarrow> string option" where
  "url_date_text event_url =
     (if contains_str ''occ_dtstart='' event_url
      then (case re_search False occ_dtstart_pattern 2 event_url of
              Some (group0, groups) \<Rightarrow> groups ! 0
            | None \<Rightarrow> None)
      else None)"

text \<open>\<open>date_text\<close> of \<open>scrape_event\<close>: from the URL, else from the description.\<close>

definition scrape_date_text :: "nat \<Rightarrow> string \<Rightarrow> string option \<Rightarrow> string option" where
  "scrape_date_text current_year event_url description =
     (let date_text = url_date_text event_url
      in if \<not> truthy date_text \<and> truthy description
         then (case first_match date_patterns (the description) of
                 Some m \<Rightarrow> date_from_groups current_year m
               | None \<Rightarrow> date_text)
         else date_text)"

text \<open>
  What \<open>scrape_event\<close> returns for a fetched page.  The name (after its fallbacks), the
  description, the time, the location and the image are what the selectors of the HTML
  parser found on the page.
\<close>

record page =
  page_name :: "string option"
  page_description :: "string option"
  page_time :: "string option"
  page_location :: "string option"
  page_image_url :: "string option"

definition source_name :: string where
  "source_name = ''Holy City Sinner''"

definition scrape_event :: "nat \<Rightarrow> string \<Rightarrow> page \<Rightarrow> raw_event option" where
  "scrape_event current_year event_url pg =
     (let name = page_name pg;
          description = page_description pg;
          date_text = scrape_date_text current_year event_url description;
          event = \<lparr>Name = name, Date = date_text, Time = page_time pg,
                   Location = page_location pg, Description = description,
                   URL = Some event_url, Image_URL = page_image_url pg,
                   Source = Some source_name\<rparr>
      in if truthy name \<and> truthy date_text then Some event else None)"

text \<open>
  \<open>get_all_events\<close>: the three sources are joined, the later ones without the URLs already
  present, and the events with a date later than \<open>today + 365 days\<close> are filtered out.
  Dates are compared as strings.
\<close>

definition max_date_threshold :: "date \<Rightarrow> string" where
  "max_date_threshold today = strftime (add_days today 365)"

definition extend_unique :: "raw_event list \<Rightarrow> raw_event list \<Rightarrow> raw_event list" where
  "extend_unique all_events new_events =
     (if new_events \<noteq> []
      then all_events @ filter (\<lambda>e. URL e \<notin> set (map URL all_events)) new_events
      else all_events)"

definition filter_dates :: "date \<Rightarrow> raw_event list \<Rightarrow> raw_event list" where
  "filter_dates today all_events =
     filter (\<lambda>event. truthy (Date event) \<and> the (Date event) \<le> max_date_threshold today)
       all_events"

definition get_all_events ::
  "date \<Rightarrow> raw_event list \<Rightarrow> raw_event list \<Rightarrow> raw_event list \<Rightarrow> raw_event list" where
  "get_all_events today web_events weekend_events mobile_events =
     filter_dates today (extend_unique (extend_unique web_events weekend_events) mobile_events)"

text \<open>
  The date of a match in \<open>_extract_events_from_text\<close>: \<open>strptime\<close> with \<open>"%B %d, %Y"\<close> gives a
  date or fails (\<open>ValueError\<close>, here \<open>None\<close>, and the match is skipped); a date more than 180
  days before now moves to the next year, which fails for a 29 February.
\<close>

definition full_month_num :: "string \<Rightarrow> nat option" where
  "full_month_num name = index_of (lower name) (map lower month_names) 1"

definition strptime_B_d_Y :: "string \<Rightarrow> string \<Rightarrow> string \<Rightarrow> date option" where
  "strptime_B_d_Y m d y =
     (case full_month_num m of
        None \<Rightarrow> None
      | Some mn \<Rightarrow>
          (let dt = \<lparr>year = int_of_digits y, month = mn, day = int_of_digits d\<rparr>
           in if isdigit d \<and> length d \<le> 2 \<and> isdigit y \<and> length y = 4 \<and> valid_date dt
              then Some dt else None))"

definition replace_year :: "date \<Rightarrow> nat \<Rightarrow> date option" where
  "replace_year d y = (let d' = d\<lparr>year := y\<rparr> in if valid_date d' then Some d' else None)"

definition text_date_str :: "date \<Rightarrow> string \<Rightarrow> string \<Rightarrow> string option \<Rightarrow> string option" where
  "text_date_str now m d y =
     (case strptime_B_d_Y m d (if truthy y then the y else show_nat (year now)) of
        None \<Rightarrow> None
      | Some date_obj \<Rightarrow>
          (if days_between now date_obj > 180
           then map_option strftime (replace_year date_obj (year date_obj + 1))
           else Some (strftime date_obj)))"

text \<open>Concrete inputs used in the examples below.\<close>

definition food_truck_friday :: raw_event where
  "food_truck_friday =
     \<lparr>Name = Some ''Food Truck Friday'', Date = Some ''2024-06-07'', Time = None,
      Location = None, Description = None, URL = None, Image_URL = None, Source = None\<rparr>"

definition empty_database :: database where
  "empty_database = \<lparr>db_events = [], db_businesses = []\<rparr>"

text \<open>
  The tokens of an optional text in the keyword fallback, and the number of times a
  business is listed under the tokens of a text.
\<close>

definition event_tokens :: "string option \<Rightarrow> string list" where
  "event_tokens v = (if truthy v then re_split_W (lower (the v)) else [])"

definition keyword_hits :: "(string \<times> int list) list \<Rightarrow> string list \<Rightarrow> int \<Rightarrow> int" where
  "keyword_hits kw ws b = sum_list (map (\<lambda>word. int (count_list (kw_ids kw word) b)) ws)"

text \<open>
  The three loops of the dataset matcher as one scan over a list of candidates: the index,
  the business name and, for a candidate that passes the loop's guard, its score.
\<close>

definition scan ::
  "int \<Rightarrow> match_type \<Rightarrow> (nat \<times> string \<times> int option) list \<Rightarrow> match_state \<Rightarrow> match_state" where
  "scan thr ty cands st =
     fold (\<lambda>(j, name, sc) st. case sc of None \<Rightarrow> st
                               | Some score \<Rightarrow> consider_candidate thr ty (int j) name score st)
       cands st"

definition name_candidates ::
  "(string \<Rightarrow> string \<Rightarrow> int) \<Rightarrow> string list \<Rightarrow> string \<Rightarrow> (nat \<times> string \<times> int option) list" where
  "name_candidates pr business_names text =
     map (\<lambda>(j, bn). (j, business_names ! j,
                      if bn \<noteq> [] \<and> length bn > 3 then Some (pr text bn) else None))
       (enumerate 0 (map clean business_names))"

definition location_candidates ::
  "(string \<Rightarrow> string \<Rightarrow> int) \<Rightarrow> string list \<Rightarrow> string option list \<Rightarrow> string \<Rightarrow>
   (nat \<times> string \<times> int option) list" where
  "location_candidates pr business_names business_locations text =
     map (\<lambda>(j, bl). (j, business_names ! j,
                      if truthy bl then Some (pr text (clean (the bl))) else None))
       (enumerate 0 business_locations)"

definition accepted_by ::
  "int \<Rightarrow> match_type \<Rightarrow> (nat \<times> string \<times> int option) list \<Rightarrow> match_state \<Rightarrow> bool" where
  "accepted_by thr ty cands st =
     (\<exists>j name. (j, name, Some (best_score st)) \<in> set cands \<and> best_score st > thr \<and>
               match_index st = int j \<and> best_match st = Some name \<and> match_type st = Some ty)"

text \<open>Catalogs and scorers of the examples.  The scorers are tables on the cleaned names.\<close>

definition gin_joint_catalog :: "business list" where
  "gin_joint_catalog =
     [(0, Some ''The Gin Joint'', Some ''182 East Bay St''), (1, Some ''East Bay'', None)]"

definition music_hall_catalog :: "business list" where
  "music_hall_catalog = [(1, Some ''Charleston Music Hall'', Some ''37 John St'')]"

definition gin_joint_businesses :: "(string \<times> string option) list" where
  "gin_joint_businesses =
     [(''The Gin Joint'', Some ''182 East Bay St''), (''Husk Restaurant'', Some ''76 Queen St'')]"

definition ratio_name_81 :: "string \<Rightarrow> string \<Rightarrow> int" where
  "ratio_name_81 a b =
     (if b = ''the gin joint'' then 81 else if b = ''husk restaurant'' then 80 else 0)"

definition ratio_location_81 :: "string \<Rightarrow> string \<Rightarrow> int" where
  "ratio_location_81 a b =
     (if b = ''182 east bay st'' then 81 else if b = ''76 queen st'' then 80 else 0)"

definition ratio_event_name_86 :: "string \<Rightarrow> string \<Rightarrow> int" where
  "ratio_event_name_86 a b = (if a = ''jazz at the joint'' \<and> b = ''the gin joint'' then 86 else 0)"

text \<open>
  The order of the calendar on dates, the last date of \<open>datetime\<close>, and a number written
  with a fixed number of digits.
\<close>

definition date_less :: "date \<Rightarrow> date \<Rightarrow> bool" where
  "date_less a b = (year a < year b \<or> (year a = year b \<and>
     (month a < month b \<or> (month a = month b \<and> day a < day b))))"

definition date_le :: "date \<Rightarrow> date \<Rightarrow> bool" where
  "date_le a b = (year a < year b \<or> (year a = year b \<and>
     (month a < month b \<or> (month a = month b \<and> day a \<le> day b))))"

definition max_date :: date where
  "max_date = \<lparr>year = 9999, month = 12, day = 31\<rparr>"

fun show_fixed :: "nat \<Rightarrow> nat \<Rightarrow> string" where
  "show_fixed 0 n = []"
| "show_fixed (Suc k) n = show_fixed k (n div 10) @ [digit_chr (n mod 10)]"

text \<open>Pages, events and dates of the examples.\<close>

definition jazz_url :: string where
  "jazz_url = ''https://holycitysinner.com/events/jazz-night''"

definition jazz_page :: page where
  "jazz_page = \<lparr>page_name = Some ''Jazz Night'',
                 page_description = Some ''Live jazz on the patio'',
                 page_time = None, page_location = None, page_image_url = None\<rparr>"

definition roast_url :: string where
  "roast_url = ''https://holycitysinner.com/events/oyster-roast''"

definition roast_page :: page where
  "roast_page = \<lparr>page_name = Some ''Oyster Roast'',
                  page_description = Some ''Join us March 3 for the oyster roast'',
                  page_time = None, page_location = None, page_image_url = None\<rparr>"

definition september_1_2024 :: date where
  "september_1_2024 = \<lparr>year = 2024, month = 9, day = 1\<rparr>"

definition event_on :: "string \<Rightarrow> string option \<Rightarrow> raw_event" where
  "event_on name date_text =
     \<lparr>Name = Some name, Date = date_text, Time = None, Location = None, Description = None,
      URL = Some name, Image_URL = None, Source = Some source_name\<rparr>"

text \<open>
  The row that the loop appends for an admitted event, and the test for admission: the
  event has a name and its key is not in the dedup set.
\<close>

definition event_to_row :: "venue_index \<Rightarrow> string \<Rightarrow> int \<Rightarrow> raw_event \<Rightarrow> event_row" where
  "event_to_row idx scraper_name rid event =
     \<lparr>row_id = rid, row_name = the (clean_field (Name event)),
      row_date = clean_field (Date event), row_time = clean_field (Time event),
      row_location = clean_field (Location event),
      row_description = clean_field (Description event),
      row_url = clean_field (URL event), row_image_url = clean_field (Image_URL event),
      row_source = (if truthy (Source event) then the (Source event) else scraper_name),
      row_business_id = find_matching_business idx (Some (the (clean_field (Name event))))
                          (clean_field (Location event))\<rparr>"

definition admitted :: "(string \<times> string option) set \<Rightarrow> raw_event \<Rightarrow> bool" where
  "admitted existing_events e = (has_name e \<and> event_key e \<notin> existing_events)"

definition oyster_roast :: raw_event where
  "oyster_roast =
     \<lparr>Name = Some ''Oyster Roast'', Date = Some ''2024-03-03'', Time = None,
      Location = None, Description = None, URL = None, Image_URL = None, Source = None\<rparr>"



section \<open>Properties of the ingestion run\<close>

lemma process_event_no_name:
  "\<not> has_name e \<Longrightarrow> process_event idx ex sn nid e st = st"
  by (simp add: has_name_def process_event_def)

lemma process_event_duplicate:
  "has_name e \<Longrightarrow> event_key e \<in> ex \<Longrightarrow>
   process_event idx ex sn nid e st = st\<lparr>duplicate_count := duplicate_count st + 1\<rparr>"
  by (auto simp: has_name_def event_key_def process_event_def Let_def)

lemma process_event_admitted:
  "has_name e \<Longrightarrow> event_key e \<notin> ex \<Longrightarrow>
   imported_count (process_event idx ex sn nid e st) = imported_count st + 1 \<and>
   duplicate_count (process_event idx ex sn nid e st) = duplicate_count st \<and>
   (\<exists>r. events_to_import (process_event idx ex sn nid e st) = events_to_import st @ [r] \<and>
        row_key r = event_key e)"
  by (auto simp: has_name_def event_key_def process_event_def Let_def row_key_def)

text \<open>
  The dedup set is the one loaded before the loop and is not changed by it: a run counts
  as imported every named event whose key is not in that set, and as duplicate every
  named event whose key is in it.
\<close>

lemma fold_process_event_counts:
  "imported_count (fold (process_event idx ex sn nid) evs st) =
     imported_count st + int (length (filter (\<lambda>e. has_name e \<and> event_key e \<notin> ex) evs)) \<and>
   duplicate_count (fold (process_event idx ex sn nid) evs st) =
     duplicate_count st + int (length (filter (\<lambda>e. has_name e \<and> event_key e \<in> ex) evs))"
proof (induction evs arbitrary: st)
  case Nil show ?case by simp
next
  case (Cons e evs)
  show ?case
  proof (cases "has_name e")
    case False
    then show ?thesis using Cons.IH[of st] by (simp add: process_event_no_name)
  next
    case True
    show ?thesis
    proof (cases "event_key e \<in> ex")
      case True
      with \<open>has_name e\<close> show ?thesis
        using Cons.IH[of "st\<lparr>duplicate_count := duplicate_count st + 1\<rparr>"]
        by (simp add: process_event_duplicate)
    next
      case False
      with \<open>has_name e\<close> show ?thesis
        using Cons.IH[of "process_event idx ex sn nid e st"]
          process_event_admitted[of e ex idx sn nid st]
        by simp
    qed
  qed
qed

lemma process_event_rows_grow:
  "set (map row_key (events_to_import st)) \<subseteq>
   set (map row_key (events_to_import (process_event idx ex sn nid e st)))"
  by (auto simp: process_event_def Let_def split: option.splits)

lemma fold_process_event_rows_grow:
  "set (map row_key (events_to_import st)) \<subseteq>
   set (map row_key (events_to_import (fold (process_event idx ex sn nid) evs st)))"
proof (induction evs arbitrary: st)
  case Nil show ?case by simp
next
  case (Cons e evs)
  show ?case using process_event_rows_grow[of st idx ex sn nid e]
      Cons.IH[of "process_event idx ex sn nid e st"] by (simp del: set_map)
qed

lemma fold_process_event_all_duplicates:
  "\<forall>e\<in>set evs. has_name e \<longrightarrow> event_key e \<in> ex \<Longrightarrow>
   events_to_import (fold (process_event idx ex sn nid) evs st) = events_to_import st"
proof (induction evs arbitrary: st)
  case Nil show ?case by simp
next
  case (Cons e evs)
  have step: "events_to_import (process_event idx ex sn nid e st) = events_to_import st"
    using Cons.prems by (cases "has_name e") (simp_all add: process_event_no_name process_event_duplicate)
  show ?case using Cons.IH[of "process_event idx ex sn nid e st"] Cons.prems step by simp
qed

lemma fold_process_event_keys_covered:
  "e \<in> set evs \<Longrightarrow> has_name e \<Longrightarrow>
   event_key e \<in> ex \<union> set (map row_key (events_to_import (fold (process_event idx ex sn nid) evs st)))"
proof (induction evs arbitrary: st)
  case Nil then show ?case by simp
next
  case (Cons a evs)
  show ?case
  proof (cases "e = a")
    case True
    show ?thesis
    proof (cases "event_key e \<in> ex")
      case True then show ?thesis by simp
    next
      case False
      obtain r where r: "events_to_import (process_event idx ex sn nid e st) = events_to_import st @ [r]"
        "row_key r = event_key e"
        using process_event_admitted[OF Cons.prems(2) False, of idx sn nid st] by blast
      then have "event_key e \<in> set (map row_key (events_to_import (process_event idx ex sn nid e st)))"
        by simp
      then show ?thesis
        using fold_process_event_rows_grow[of "process_event idx ex sn nid e st" idx ex sn nid evs] True
        by (simp del: set_map) blast
    qed
  next
    case False
    then have "e \<in> set evs" using Cons.prems(1) by simp
    then show ?thesis using Cons.IH[OF _ Cons.prems(2), of "process_event idx ex sn nid a st"] by simp
  qed
qed

lemma existing_after_import:
  "load_existing_events (fst (import_events_from_scraper db sn evs)) =
   load_existing_events db \<union>
   set (map row_key (events_to_import (snd (import_events_from_scraper db sn evs))))"
  by (auto simp: import_events_from_scraper_def Let_def load_existing_events_def initial_state_def)

text \<open>
  C1 (as the code has it).  The dedup set of a run is the set of \<open>(name, date)\<close> pairs loaded
  from the events table before the loop; the loop does not add to it.  A run counts as
  imported every named record whose pair is not in the loaded set, and as duplicate every
  named record whose pair is in it.
\<close>

theorem run_counts_against_loaded_set:
  "imported_count (snd (import_events_from_scraper db scraper_name events)) =
     int (length (filter (\<lambda>e. has_name e \<and> event_key e \<notin> load_existing_events db) events)) \<and>
   duplicate_count (snd (import_events_from_scraper db scraper_name events)) =
     int (length (filter (\<lambda>e. has_name e \<and> event_key e \<in> load_existing_events db) events))"
proof (cases "events = []")
  case True
  then show ?thesis by (simp add: import_events_from_scraper_def initial_state_def)
next
  case False
  then show ?thesis
    using fold_process_event_counts[of "load_index (db_businesses db)" "load_existing_events db"
        scraper_name "next_event_id db" events initial_state]
    by (simp add: import_events_from_scraper_def Let_def process_events_def initial_state_def)
qed

text \<open>
  C1 (as stated) fails.  Two byte-identical records in one batch, on an empty events table:
  the second is admitted as well, the run reports two imported events and no duplicate,
  and both rows are inserted.
\<close>

theorem same_batch_duplicate_admitted:
  "imported_count (snd (import_events_from_scraper empty_database ''hcs''
      [food_truck_friday, food_truck_friday])) = 2 \<and>
   duplicate_count (snd (import_events_from_scraper empty_database ''hcs''
      [food_truck_friday, food_truck_friday])) = 0 \<and>
   map row_key (db_events (fst (import_events_from_scraper empty_database ''hcs''
      [food_truck_friday, food_truck_friday]))) =
     [(''Food Truck Friday'', Some ''2024-06-07''), (''Food Truck Friday'', Some ''2024-06-07'')]"
  by code_simp

text \<open>
  C9.  A second run over the same events, on the database that the first run left, imports
  nothing: every named event is reported as a duplicate (those the first run admitted and
  those it already reported), nothing is inserted and the database is unchanged.
\<close>

theorem dedup_idempotent:
  "(let (db1, st1) = import_events_from_scraper db scraper_name events;
        (db2, st2) = import_events_from_scraper db1 scraper_name events
    in imported_count st2 = 0 \<and>
       duplicate_count st2 = imported_count st1 + duplicate_count st1 \<and>
       events_to_import st2 = [] \<and> db2 = db1)"
proof (cases "events = []")
  case True
  then show ?thesis by (simp add: import_events_from_scraper_def initial_state_def)
next
  case False
  define db1 where "db1 = fst (import_events_from_scraper db scraper_name events)"
  define st1 where "st1 = snd (import_events_from_scraper db scraper_name events)"
  define st2 where "st2 = process_events db1 scraper_name events"
  have st1: "st1 = process_events db scraper_name events"
    using False by (simp add: st1_def import_events_from_scraper_def Let_def)
  have cov: "\<forall>e\<in>set events. has_name e \<longrightarrow> event_key e \<in> load_existing_events db1"
    unfolding db1_def existing_after_import
    using fold_process_event_keys_covered
    by (simp add: import_events_from_scraper_def Let_def False process_events_def del: set_map)
  then have f1: "filter (\<lambda>e. has_name e \<and> event_key e \<notin> load_existing_events db1) events = []"
    by (auto simp: filter_empty_conv)
  have f2: "filter (\<lambda>e. has_name e \<and> event_key e \<in> load_existing_events db1) events =
            filter has_name events"
    using cov by (auto intro: filter_cong)
  have c2: "imported_count st2 = 0" "duplicate_count st2 = int (length (filter has_name events))"
    unfolding st2_def process_events_def
    using fold_process_event_counts[of "load_index (db_businesses db1)" "load_existing_events db1"
        scraper_name "next_event_id db1" events initial_state]
    by (simp_all add: f1 f2 initial_state_def)
  have "length (filter has_name events) =
        length (filter (\<lambda>e. has_name e \<and> event_key e \<notin> load_existing_events db) events) +
        length (filter (\<lambda>e. has_name e \<and> event_key e \<in> load_existing_events db) events)"
    by (induction events) auto
  then have c1: "imported_count st1 + duplicate_count st1 = int (length (filter has_name events))"
    unfolding st1 process_events_def
    using fold_process_event_counts[of "load_index (db_businesses db)" "load_existing_events db"
        scraper_name "next_event_id db" events initial_state]
    by (simp add: initial_state_def)
  have e2: "events_to_import st2 = []"
    unfolding st2_def process_events_def
    using fold_process_event_all_duplicates[OF cov] by (simp add: initial_state_def)
  have imp1: "import_events_from_scraper db scraper_name events = (db1, st1)"
    by (simp add: db1_def st1_def)
  have imp2: "import_events_from_scraper db1 scraper_name events = (db1, st2)"
    using False e2 by (simp add: import_events_from_scraper_def Let_def st2_def)
  show ?thesis using c1 c2 e2 by (simp add: imp1 imp2)
qed

theorem dedup_idempotent_witness:
  "(let (db1, st1) = import_events_from_scraper empty_database ''hcs''
                       [food_truck_friday, food_truck_friday];
        (db2, st2) = import_events_from_scraper db1 ''hcs'' [food_truck_friday, food_truck_friday]
    in imported_count st1 = 2 \<and> imported_count st2 = 0 \<and> duplicate_count st2 = 2)"
proof -
  have a: "imported_count (snd (import_events_from_scraper empty_database ''hcs''
             [food_truck_friday, food_truck_friday])) = 2"
          "duplicate_count (snd (import_events_from_scraper empty_database ''hcs''
             [food_truck_friday, food_truck_friday])) = 0"
    by code_simp+
  show ?thesis
    using dedup_idempotent[of empty_database "''hcs''" "[food_truck_friday, food_truck_friday]"] a
    by (simp add: case_prod_beta Let_def)
qed

lemma fold_max_ge: "(m::int) \<le> fold max xs m \<and> (\<forall>x\<in>set xs. x \<le> fold max xs m)"
proof (induction xs arbitrary: m)
  case Nil show ?case by simp
next
  case (Cons a xs)
  have "max a m \<le> fold max xs (max a m)" and "\<forall>x\<in>set xs. x \<le> fold max xs (max a m)"
    using Cons.IH[of "max a m"] by simp_all
  then show ?case by auto
qed

lemma max_id_ge: "r \<in> set rows \<Longrightarrow> \<exists>m. max_id rows = Some m \<and> row_id r \<le> m"
  using fold_max_ge by (cases rows) (auto simp: max_id_def)

lemma max_id_is_Max: "rows \<noteq> [] \<Longrightarrow> max_id rows = Some (Max (row_id ` set rows))"
proof (cases rows)
  case Nil then show "rows \<noteq> [] \<Longrightarrow> ?thesis" by simp
next
  case (Cons r rs)
  have "Max (set (row_id r # map row_id rs)) = fold max (map row_id rs) (row_id r)"
    by (rule Max.set_eq_fold)
  then show ?thesis using Cons by (simp add: max_id_def)
qed

lemma existing_ids_below_next: "r \<in> set (db_events db) \<Longrightarrow> row_id r < next_event_id db"
  using max_id_ge[of r "db_events db"] by (auto simp: next_event_id_def)

lemma process_event_admitted_row:
  "admitted ex e \<Longrightarrow>
   events_to_import (process_event idx ex sn nid e st) =
     events_to_import st @ [event_to_row idx sn (nid + imported_count st) e] \<and>
   imported_count (process_event idx ex sn nid e st) = imported_count st + 1"
  by (auto simp: admitted_def has_name_def event_key_def process_event_def Let_def event_to_row_def)

lemma process_event_not_admitted:
  "\<not> admitted ex e \<Longrightarrow>
   events_to_import (process_event idx ex sn nid e st) = events_to_import st \<and>
   imported_count (process_event idx ex sn nid e st) = imported_count st"
  by (cases "has_name e")
     (simp_all add: admitted_def process_event_no_name process_event_duplicate)

lemma fold_process_event_rows:
  "imported_count st = int (length (events_to_import st)) \<Longrightarrow>
   events_to_import (fold (process_event idx ex sn nid) evs st) =
     events_to_import st @
     map (\<lambda>(k, e). event_to_row idx sn (nid + int k) e)
       (enumerate (length (events_to_import st)) (filter (admitted ex) evs))"
proof (induction evs arbitrary: st)
  case Nil show ?case by simp
next
  case (Cons e evs)
  let ?st' = "process_event idx ex sn nid e st"
  show ?case
  proof (cases "admitted ex e")
    case True
    have r: "events_to_import ?st' =
               events_to_import st @ [event_to_row idx sn (nid + imported_count st) e]"
      and c: "imported_count ?st' = imported_count st + 1"
      using process_event_admitted_row[OF True] by blast+
    have inv: "imported_count ?st' = int (length (events_to_import ?st'))"
      using r c Cons.prems by simp
    show ?thesis using Cons.IH[OF inv] True r Cons.prems by simp
  next
    case False
    have r: "events_to_import ?st' = events_to_import st"
      and c: "imported_count ?st' = imported_count st"
      using process_event_not_admitted[OF False] by blast+
    have inv: "imported_count ?st' = int (length (events_to_import ?st'))"
      using r c Cons.prems by simp
    show ?thesis using Cons.IH[OF inv] False r by simp
  qed
qed

lemma import_rows:
  "events_to_import (snd (import_events_from_scraper db sn evs)) =
     map (\<lambda>(k, e). event_to_row (load_index (db_businesses db)) sn (next_event_id db + int k) e)
       (enumerate 0 (filter (admitted (load_existing_events db)) evs))"
proof (cases "evs = []")
  case True
  then show ?thesis by (simp add: import_events_from_scraper_def initial_state_def)
next
  case False
  have i: "imported_count initial_state = int (length (events_to_import initial_state))"
    by (simp add: initial_state_def)
  show ?thesis
    using False fold_process_event_rows[OF i, of "load_index (db_businesses db)"
        "load_existing_events db" sn "next_event_id db" evs]
    by (simp add: import_events_from_scraper_def Let_def process_events_def initial_state_def)
qed

text \<open>
  C10.  The rows of a run are the admitted records in input order: the \<open>k\<close>-th admitted
  record (counting from 0) becomes the \<open>k\<close>-th row, with the next free id plus \<open>k\<close> as its
  id, where the next free id is the greatest id of the events table plus one (and 0 on an
  empty table).  So the ids are strictly increasing in input order, pairwise distinct, and
  none of them is the id of a row already in the table.
\<close>

theorem ids_sequential:
  "(let adm = filter (admitted (load_existing_events db)) events;
        rows = events_to_import (snd (import_events_from_scraper db scraper_name events));
        ids = map row_id rows
    in length rows = length adm \<and>
       (\<forall>k < length adm.
          rows ! k = event_to_row (load_index (db_businesses db)) scraper_name
                       (next_event_id db + int k) (adm ! k) \<and>
          ids ! k = next_event_id db + int k) \<and>
       (db_events db \<noteq> [] \<longrightarrow> next_event_id db = Max (row_id ` set (db_events db)) + 1) \<and>
       (db_events db = [] \<longrightarrow> next_event_id db = 0) \<and>
       sorted_wrt (<) ids \<and> distinct ids \<and>
       (\<forall>r \<in> set (db_events db). row_id r \<notin> set ids))"
proof -
  define adm where "adm = filter (admitted (load_existing_events db)) events"
  define rows where "rows = events_to_import (snd (import_events_from_scraper db scraper_name events))"
  define ids where "ids = map row_id rows"
  have rows: "rows = map (\<lambda>(k, e). event_to_row (load_index (db_businesses db)) scraper_name
                                       (next_event_id db + int k) e) (enumerate 0 adm)"
    unfolding rows_def adm_def by (rule import_rows)
  have len: "length rows = length adm" by (simp add: rows)
  have row: "\<forall>k < length adm. rows ! k = event_to_row (load_index (db_businesses db)) scraper_name
                       (next_event_id db + int k) (adm ! k)"
    by (simp add: rows nth_enumerate_eq)
  have nth: "\<forall>k < length ids. ids ! k = next_event_id db + int k"
    using row len by (simp add: ids_def event_to_row_def)
  have s: "sorted_wrt (<) ids"
    using nth by (simp add: sorted_wrt_iff_nth_less)
  have d: "distinct ids"
    using nth by (simp add: distinct_conv_nth)
  have ge: "\<forall>i \<in> set ids. next_event_id db \<le> i"
    using nth by (auto simp: in_set_conv_nth)
  have fresh: "\<forall>r \<in> set (db_events db). row_id r \<notin> set ids"
    using ge existing_ids_below_next by fastforce
  have mx: "db_events db \<noteq> [] \<longrightarrow> next_event_id db = Max (row_id ` set (db_events db)) + 1"
    by (simp add: next_event_id_def max_id_is_Max)
  have mt: "db_events db = [] \<longrightarrow> next_event_id db = 0"
    by (simp add: next_event_id_def max_id_def)
  have nth': "\<forall>k < length adm. ids ! k = next_event_id db + int k"
    using nth len by (simp add: ids_def)
  show ?thesis
    unfolding Let_def adm_def[symmetric] rows_def[symmetric] ids_def[symmetric]
    using len row nth' mx mt s d fresh by blast
qed

theorem ids_sequential_witness:
  "(let db = \<lparr>db_events = [\<lparr>row_id = 7, row_name = ''Jazz Night'', row_date = None,
                  row_time = None, row_location = None, row_description = None, row_url = None,
                  row_image_url = None, row_source = ''cvb'', row_business_id = None\<rparr>],
               db_businesses = []\<rparr>;
        rows = events_to_import (snd (import_events_from_scraper db ''hcs''
                 [oyster_roast, food_truck_friday]))
    in db_events db \<noteq> [] \<and> length rows = 2 \<and>
       row_name (rows ! 0) = ''Oyster Roast'' \<and> row_id (rows ! 0) = 8 \<and>
       row_name (rows ! 1) = ''Food Truck Friday'' \<and> row_id (rows ! 1) = 9 \<and>
       (\<forall>r \<in> set (db_events db). row_id r \<notin> set (map row_id rows)))"
proof -
  let ?db = "\<lparr>db_events = [\<lparr>row_id = 7, row_name = ''Jazz Night'', row_date = None,
                  row_time = None, row_location = None, row_description = None, row_url = None,
                  row_image_url = None, row_source = ''cvb'', row_business_id = None\<rparr>],
               db_businesses = []\<rparr>"
  have adm: "filter (admitted (load_existing_events ?db)) [oyster_roast, food_truck_friday] =
             [oyster_roast, food_truck_friday]"
    by (simp add: admitted_def has_name_def event_key_def load_existing_events_def row_key_def
          clean_field_def oyster_roast_def food_truck_friday_def)
  have nx: "Max (row_id ` set (db_events ?db)) + 1 = 8" by simp
  have n0: "row_name (event_to_row (load_index (db_businesses ?db)) ''hcs'' 8 oyster_roast) = ''Oyster Roast''"
       "row_name (event_to_row (load_index (db_businesses ?db)) ''hcs'' 9 food_truck_friday) = ''Food Truck Friday''"
    by (simp_all add: event_to_row_def clean_field_def oyster_roast_def food_truck_friday_def)
  show ?thesis
    using ids_sequential[of ?db "[oyster_roast, food_truck_friday]" "''hcs''"] nx n0
    unfolding Let_def adm
    by (simp add: event_to_row_def)
qed

section \<open>Properties of the keyword fallback\<close>

lemma points_of_add_points:
  "points_of (add_points w b pm) b' = (if b' = b then points_of pm b + w else points_of pm b')"
  by (simp add: points_of_def add_points_def update_conv')

lemma points_of_fold_add_points:
  "points_of (fold (add_points w) ids pm) b = points_of pm b + w * int (count_list ids b)"
  by (induction ids arbitrary: pm) (simp_all add: points_of_add_points algebra_simps)

lemma points_of_score_words:
  "points_of (score_words kw w ws pm) b = points_of pm b + w * keyword_hits kw ws b"
  unfolding score_words_def keyword_hits_def
proof (induction ws arbitrary: pm)
  case Nil show ?case by simp
next
  case (Cons a ws)
  show ?case
    by (cases "map_of kw a")
       (simp_all add: Cons.IH kw_ids_def points_of_fold_add_points algebra_simps)
qed

lemma points_of_empty: "points_of [] b = 0"
  by (simp add: points_of_def)

lemma keyword_hits_Nil: "keyword_hits kw [] b = 0"
  by (simp add: keyword_hits_def)

lemma points_of_keyword_points:
  "points_of (keyword_points kw event_name event_location) b =
     2 * keyword_hits kw (event_tokens event_location) b +
     keyword_hits kw (event_tokens event_name) b"
  by (simp add: keyword_points_def Let_def event_tokens_def points_of_score_words
        points_of_empty keyword_hits_Nil)

lemma distinct_add_points: "distinct (map fst pm) \<Longrightarrow> distinct (map fst (add_points w b pm))"
  by (simp add: add_points_def distinct_update)

lemma distinct_fold_add_points:
  "distinct (map fst pm) \<Longrightarrow> distinct (map fst (fold (add_points w) ids pm))"
  by (induction ids arbitrary: pm) (simp_all add: distinct_add_points)

lemma distinct_score_words:
  "distinct (map fst pm) \<Longrightarrow> distinct (map fst (score_words kw w ws pm))"
  unfolding score_words_def
proof (induction ws arbitrary: pm)
  case Nil then show ?case by simp
next
  case (Cons a ws)
  then show ?case by (cases "map_of kw a") (simp_all add: distinct_fold_add_points)
qed

lemma distinct_keyword_points: "distinct (map fst (keyword_points kw n l))"
  by (simp add: keyword_points_def Let_def distinct_score_words)

lemma max_item_props:
  "max_item x xs \<in> set (x # xs) \<and> (\<forall>y\<in>set (x # xs). snd y \<le> snd (max_item x xs))"
proof (induction xs arbitrary: x)
  case Nil show ?case by simp
next
  case (Cons a xs)
  let ?x' = "if snd a > snd x then a else x"
  have "max_item ?x' xs \<in> set (?x' # xs)" "\<forall>y\<in>set (?x' # xs). snd y \<le> snd (max_item ?x' xs)"
    using Cons.IH[of ?x'] by blast+
  then show ?case by (auto split: if_splits)
qed

lemma points_of_member:
  "distinct (map fst pm) \<Longrightarrow> (b, p) \<in> set pm \<Longrightarrow> points_of pm b = p"
  by (simp add: points_of_def)

lemma points_of_nonzero_member:
  "points_of pm b \<noteq> 0 \<Longrightarrow> (b, points_of pm b) \<in> set pm"
  by (auto simp: points_of_def split: option.splits dest: map_of_SomeD)

lemma keyword_hits_nonneg: "0 \<le> keyword_hits kw ws b"
  unfolding keyword_hits_def by (induction ws) simp_all

lemma keyword_match_Some:
  assumes "keyword_match kw n l = Some b"
  shows "2 \<le> points_of (keyword_points kw n l) b \<and>
         (\<forall>b'. points_of (keyword_points kw n l) b' \<le> points_of (keyword_points kw n l) b)"
proof -
  let ?pm = "keyword_points kw n l"
  from assms obtain x xs where pm: "?pm = x # xs"
    and best: "snd (max_item x xs) \<ge> 2" "fst (max_item x xs) = b"
    by (auto simp: keyword_match_def Let_def split: list.splits if_splits)
  have mem: "max_item x xs \<in> set ?pm" and mx: "\<forall>y\<in>set ?pm. snd y \<le> snd (max_item x xs)"
    using max_item_props[of x xs] pm by simp_all
  have "(b, snd (max_item x xs)) \<in> set ?pm" using mem best(2) by (metis prod.collapse)
  then have pb: "points_of ?pm b = snd (max_item x xs)"
    using points_of_member[OF distinct_keyword_points] by blast
  have "points_of ?pm b' \<le> points_of ?pm b" for b'
  proof (cases "points_of ?pm b' = 0")
    case True then show ?thesis using pb best(1) by simp
  next
    case False
    then have "(b', points_of ?pm b') \<in> set ?pm" by (rule points_of_nonzero_member)
    then show ?thesis using mx pb by fastforce
  qed
  then show ?thesis using pb best(1) by simp
qed

lemma keyword_match_None:
  assumes "\<forall>b. points_of (keyword_points kw n l) b < 2"
  shows "keyword_match kw n l = None"
proof (rule ccontr)
  assume "keyword_match kw n l \<noteq> None"
  then obtain b where "keyword_match kw n l = Some b" by blast
  then have "2 \<le> points_of (keyword_points kw n l) b" using keyword_match_Some by blast
  then show False using assms by (simp add: not_le[symmetric])
qed

lemma keyword_match_exists:
  assumes "2 \<le> points_of (keyword_points kw n l) b"
  shows "\<exists>b'. keyword_match kw n l = Some b'"
proof -
  let ?pm = "keyword_points kw n l"
  have m: "(b, points_of ?pm b) \<in> set ?pm" using assms by (intro points_of_nonzero_member) simp
  then obtain x xs where pm: "?pm = x # xs" by (cases ?pm) auto
  have "\<forall>y\<in>set ?pm. snd y \<le> snd (max_item x xs)" using max_item_props[of x xs] pm by simp
  from this m have "snd (b, points_of ?pm b) \<le> snd (max_item x xs)" by blast
  then have "points_of ?pm b \<le> snd (max_item x xs)" by simp
  then show ?thesis using assms pm by (simp add: keyword_match_def Let_def)
qed

lemma keyword_hits_single:
  "\<forall>w'\<in>set ws. w' \<noteq> w \<longrightarrow> kw_ids kw w' = [] \<Longrightarrow>
   keyword_hits kw ws b = int (count_list ws w) * int (count_list (kw_ids kw w) b)"
  unfolding keyword_hits_def
  by (induction ws) (auto simp: algebra_simps)

lemma keyword_match_unique:
  assumes "2 \<le> points_of (keyword_points kw n l) b"
    and "\<forall>b'. b' \<noteq> b \<longrightarrow> points_of (keyword_points kw n l) b' < 2"
  shows "keyword_match kw n l = Some b"
proof -
  obtain b' where b': "keyword_match kw n l = Some b'" using keyword_match_exists[OF assms(1)] by blast
  then have "2 \<le> points_of (keyword_points kw n l) b'" using keyword_match_Some by blast
  then have "b' = b" using assms(2) by force
  then show ?thesis using b' by simp
qed


text \<open>
  C5.  In the keyword fallback a business gets 2 points for every time it is listed under a
  token of the event location and 1 point for every time it is listed under a token of
  the event name.  A business is returned only if its points are the greatest and at least
  2, and none is returned when all points are below 2.  When exactly one token is a keyword,
  occurs once and lists exactly one business, an overlap in the location alone (2 points)
  returns that business and an overlap in the name alone (1 point) returns none.  The
  matcher uses the fallback whenever methods 1 to 3 left no truthy id.
\<close>

theorem keyword_fallback_points:
  "points_of (keyword_points kw event_name event_location) b =
     2 * keyword_hits kw (event_tokens event_location) b +
     keyword_hits kw (event_tokens event_name) b \<and>
   (keyword_match kw event_name event_location = Some b \<longrightarrow>
     2 \<le> points_of (keyword_points kw event_name event_location) b \<and>
     (\<forall>b'. points_of (keyword_points kw event_name event_location) b' \<le>
           points_of (keyword_points kw event_name event_location) b)) \<and>
   ((\<forall>b'. points_of (keyword_points kw event_name event_location) b' < 2) \<longrightarrow>
     keyword_match kw event_name event_location = None) \<and>
   (count_list (event_tokens event_location) w = 1 \<and> w \<notin> set (event_tokens event_name) \<and>
    kw_ids kw w = [b] \<and>
    (\<forall>w' \<in> set (event_tokens event_location) \<union> set (event_tokens event_name).
       w' \<noteq> w \<longrightarrow> kw_ids kw w' = []) \<longrightarrow>
      points_of (keyword_points kw event_name event_location) b = 2 \<and>
      keyword_match kw event_name event_location = Some b) \<and>
   (count_list (event_tokens event_name) w = 1 \<and> w \<notin> set (event_tokens event_location) \<and>
    kw_ids kw w = [b] \<and>
    (\<forall>w' \<in> set (event_tokens event_location) \<union> set (event_tokens event_name).
       w' \<noteq> w \<longrightarrow> kw_ids kw w' = []) \<longrightarrow>
      points_of (keyword_points kw event_name event_location) b = 1 \<and>
      keyword_match kw event_name event_location = None) \<and>
   (falsy_id (method3 idx event_name (method2 idx event_location (method1 idx event_location))) \<longrightarrow>
      find_matching_business idx event_name event_location =
        (case keyword_match (business_keywords idx) event_name event_location of
           Some b' \<Rightarrow> Some b'
         | None \<Rightarrow> method3 idx event_name (method2 idx event_location (method1 idx event_location))))"
proof -
  let ?pm = "keyword_points kw event_name event_location"
  let ?L = "event_tokens event_location" and ?N = "event_tokens event_name"
  have pts: "\<And>b. points_of ?pm b = 2 * keyword_hits kw ?L b + keyword_hits kw ?N b"
    by (rule points_of_keyword_points)
  have p2: "keyword_match kw event_name event_location = Some b \<longrightarrow>
     2 \<le> points_of ?pm b \<and> (\<forall>b'. points_of ?pm b' \<le> points_of ?pm b)"
    using keyword_match_Some by blast
  have p3: "(\<forall>b'. points_of ?pm b' < 2) \<longrightarrow> keyword_match kw event_name event_location = None"
    using keyword_match_None by blast
  have hits: "keyword_hits kw ws b' = int (count_list ws w) * int (count_list (kw_ids kw w) b')"
    if "\<forall>w' \<in> set ?L \<union> set ?N. w' \<noteq> w \<longrightarrow> kw_ids kw w' = []" "set ws \<subseteq> set ?L \<union> set ?N"
    for ws b'
    using that by (intro keyword_hits_single) blast
  have p4: "count_list ?L w = 1 \<and> w \<notin> set ?N \<and> kw_ids kw w = [b] \<and>
   (\<forall>w' \<in> set ?L \<union> set ?N. w' \<noteq> w \<longrightarrow> kw_ids kw w' = []) \<longrightarrow>
     points_of ?pm b = 2 \<and> keyword_match kw event_name event_location = Some b"
  proof (intro impI, elim conjE)
    assume a: "count_list ?L w = 1" "w \<notin> set ?N" "kw_ids kw w = [b]"
      "\<forall>w' \<in> set ?L \<union> set ?N. w' \<noteq> w \<longrightarrow> kw_ids kw w' = []"
    have n0: "count_list ?N w = 0" using a(2) by (simp add: count_list_0_iff)
    have p: "points_of ?pm b' = (if b' = b then 2 else 0)" for b'
      using hits[OF a(4), of ?L b'] hits[OF a(4), of ?N b'] a(1,3) n0 by (simp add: pts)
    show "points_of ?pm b = 2 \<and> keyword_match kw event_name event_location = Some b"
      using keyword_match_unique[of kw event_name event_location b] p by simp
  qed
  have p5: "count_list ?N w = 1 \<and> w \<notin> set ?L \<and> kw_ids kw w = [b] \<and>
   (\<forall>w' \<in> set ?L \<union> set ?N. w' \<noteq> w \<longrightarrow> kw_ids kw w' = []) \<longrightarrow>
     points_of ?pm b = 1 \<and> keyword_match kw event_name event_location = None"
  proof (intro impI, elim conjE)
    assume a: "count_list ?N w = 1" "w \<notin> set ?L" "kw_ids kw w = [b]"
      "\<forall>w' \<in> set ?L \<union> set ?N. w' \<noteq> w \<longrightarrow> kw_ids kw w' = []"
    have n0: "count_list ?L w = 0" using a(2) by (simp add: count_list_0_iff)
    have p: "points_of ?pm b' = (if b' = b then 1 else 0)" for b'
      using hits[OF a(4), of ?L b'] hits[OF a(4), of ?N b'] a(1,3) n0 by (simp add: pts)
    show "points_of ?pm b = 1 \<and> keyword_match kw event_name event_location = None"
      using keyword_match_None[of kw event_name event_location] p by simp
  qed
  have p6: "falsy_id (method3 idx event_name (method2 idx event_location (method1 idx event_location))) \<longrightarrow>
      find_matching_business idx event_name event_location =
        (case keyword_match (business_keywords idx) event_name event_location of
           Some b' \<Rightarrow> Some b'
         | None \<Rightarrow> method3 idx event_name (method2 idx event_location (method1 idx event_location)))"
    by (simp add: find_matching_business_def method4_def)
  show ?thesis using pts[of b] p2 p3 p4 p5 p6 by (intro conjI)
qed

theorem keyword_fallback_points_witness:
  "keyword_match (business_keywords (load_index music_hall_catalog)) None (Some ''Music Farm'') = Some 1 \<and>
   points_of (keyword_points (business_keywords (load_index music_hall_catalog)) None
                (Some ''Music Farm'')) 1 = 2 \<and>
   find_matching_business (load_index music_hall_catalog) None (Some ''Music Farm'') = Some 1 \<and>
   keyword_match (business_keywords (load_index music_hall_catalog)) (Some ''Evening of Music'') None = None \<and>
   points_of (keyword_points (business_keywords (load_index music_hall_catalog))
                (Some ''Evening of Music'') None) 1 = 1 \<and>
   find_matching_business (load_index music_hall_catalog) (Some ''Evening of Music'') None = None"
proof -
  let ?idx = "load_index music_hall_catalog"
  let ?kw = "business_keywords ?idx"
  have kw: "kw_ids ?kw ''music'' = [1]" by code_simp
  have l1: "count_list (event_tokens (Some ''Music Farm'')) ''music'' = 1" by code_simp
  have l2: "''music'' \<notin> set (event_tokens None)" by code_simp
  have l3: "\<forall>w' \<in> set (event_tokens (Some ''Music Farm'')) \<union> set (event_tokens None).
             w' \<noteq> ''music'' \<longrightarrow> kw_ids ?kw w' = []" by code_simp
  have n1: "count_list (event_tokens (Some ''Evening of Music'')) ''music'' = 1" by code_simp
  have n3: "\<forall>w' \<in> set (event_tokens None) \<union> set (event_tokens (Some ''Evening of Music'')).
             w' \<noteq> ''music'' \<longrightarrow> kw_ids ?kw w' = []" by code_simp
  have f1: "falsy_id (method3 ?idx None (method2 ?idx (Some ''Music Farm'') (method1 ?idx (Some ''Music Farm''))))"
    by code_simp
  have f2: "falsy_id (method3 ?idx (Some ''Evening of Music'') (method2 ?idx None (method1 ?idx None)))"
    "method3 ?idx (Some ''Evening of Music'') (method2 ?idx None (method1 ?idx None)) = None"
    by code_simp+
  have A: "points_of (keyword_points ?kw None (Some ''Music Farm'')) 1 = 2 \<and>
           keyword_match ?kw None (Some ''Music Farm'') = Some 1"
    using keyword_fallback_points[of ?kw None "Some ''Music Farm''" 1 "''music''" ?idx] kw l1 l2 l3
    by blast
  have B: "points_of (keyword_points ?kw (Some ''Evening of Music'') None) 1 = 1 \<and>
           keyword_match ?kw (Some ''Evening of Music'') None = None"
    using keyword_fallback_points[of ?kw "Some ''Evening of Music''" None 1 "''music''" ?idx] kw n1 l2 n3
    by blast
  have C: "find_matching_business ?idx None (Some ''Music Farm'') = Some 1"
    using keyword_fallback_points[of ?kw None "Some ''Music Farm''" 1 "''music''" ?idx] f1 A
    by simp
  have D: "find_matching_business ?idx (Some ''Evening of Music'') None = None"
    using keyword_fallback_points[of ?kw "Some ''Evening of Music''" None 1 "''music''" ?idx] f2 B
    by simp
  show ?thesis using A B C D by simp
qed

section \<open>Properties of the matchers\<close>

lemma pass_location_to_name_scan:
  "pass_location_to_name pr names cl st = scan 80 location_to_name (name_candidates pr names cl) st"
  unfolding pass_location_to_name_def scan_def name_candidates_def fold_map
  by (rule arg_cong[where f="\<lambda>f. fold f _ st"]) (auto simp: fun_eq_iff)

lemma pass_name_to_name_scan:
  "pass_name_to_name pr names cn st = scan 85 name_to_name (name_candidates pr names cn) st"
  unfolding pass_name_to_name_def scan_def name_candidates_def fold_map
  by (rule arg_cong[where f="\<lambda>f. fold f _ st"]) (auto simp: fun_eq_iff)

lemma pass_location_to_location_scan:
  "pass_location_to_location pr names locs cl st =
   scan 80 location_to_location (location_candidates pr names locs cl) st"
  unfolding pass_location_to_location_def scan_def location_candidates_def fold_map
  by (rule arg_cong[where f="\<lambda>f. fold f _ st"]) (auto simp: fun_eq_iff)

lemma scan_Nil: "scan thr ty [] st = st"
  by (simp add: scan_def)

lemma scan_Cons:
  "scan thr ty ((j, name, sc) # cands) st =
   scan thr ty cands (case sc of None \<Rightarrow> st
                      | Some score \<Rightarrow> consider_candidate thr ty (int j) name score st)"
  by (simp add: scan_def)

lemma accepted_by_mono:
  "accepted_by thr ty cands st \<Longrightarrow> accepted_by thr ty (c # cands) st"
  by (auto simp: accepted_by_def)

lemma scan_result:
  "scan thr ty cands st = st \<or> accepted_by thr ty cands (scan thr ty cands st)"
proof (induction cands arbitrary: st)
  case Nil show ?case by (simp add: scan_Nil)
next
  case (Cons c cands)
  obtain j name sc where c: "c = (j, name, sc)" by (cases c) auto
  let ?st' = "case sc of None \<Rightarrow> st | Some score \<Rightarrow> consider_candidate thr ty (int j) name score st"
  have step: "scan thr ty (c # cands) st = scan thr ty cands ?st'" by (simp add: c scan_Cons)
  from Cons.IH[of ?st'] show ?case
  proof
    assume "accepted_by thr ty cands (scan thr ty cands ?st')"
    then show ?thesis by (simp add: step accepted_by_mono)
  next
    assume eq: "scan thr ty cands ?st' = ?st'"
    show ?thesis
    proof (cases "?st' = st")
      case True then show ?thesis using eq step by simp
    next
      case False
      then obtain score where sc: "sc = Some score" "score > thr" "score > best_score st"
        "?st' = \<lparr>best_match = Some name, best_score = score, match_type = Some ty, match_index = int j\<rparr>"
        by (cases sc) (auto simp: consider_candidate_def split: if_splits)
      have "accepted_by thr ty (c # cands) ?st'"
        unfolding accepted_by_def using sc c by auto
      then show ?thesis using eq step by simp
    qed
  qed
qed

lemma scan_score_lower:
  "best_score st \<le> best_score (scan thr ty cands st) \<and>
   (\<forall>j name s. (j, name, Some s) \<in> set cands \<and> s > thr \<longrightarrow> s \<le> best_score (scan thr ty cands st))"
proof (induction cands arbitrary: st)
  case Nil show ?case by (simp add: scan_Nil)
next
  case (Cons c cands)
  obtain j name sc where c: "c = (j, name, sc)" by (cases c) auto
  let ?st' = "case sc of None \<Rightarrow> st | Some score \<Rightarrow> consider_candidate thr ty (int j) name score st"
  have step: "scan thr ty (c # cands) st = scan thr ty cands ?st'" by (simp add: c scan_Cons)
  have a: "best_score st \<le> best_score ?st'"
    by (cases sc) (auto simp: consider_candidate_def)
  have b: "\<forall>s. sc = Some s \<and> s > thr \<longrightarrow> s \<le> best_score ?st'"
    by (cases sc) (auto simp: consider_candidate_def)
  have ih: "best_score ?st' \<le> best_score (scan thr ty cands ?st')"
    "\<forall>j name s. (j, name, Some s) \<in> set cands \<and> s > thr \<longrightarrow> s \<le> best_score (scan thr ty cands ?st')"
    using Cons.IH[of ?st'] by blast+
  show ?case unfolding step using a b ih c by (auto intro: order_trans)
qed

lemma scan_score_upper:
  "best_score st \<le> B \<Longrightarrow> \<forall>j name s. (j, name, Some s) \<in> set cands \<longrightarrow> s \<le> B \<Longrightarrow>
   best_score (scan thr ty cands st) \<le> B"
proof (induction cands arbitrary: st)
  case Nil then show ?case by (simp add: scan_Nil)
next
  case (Cons c cands)
  obtain j name sc where c: "c = (j, name, sc)" by (cases c) auto
  let ?st' = "case sc of None \<Rightarrow> st | Some score \<Rightarrow> consider_candidate thr ty (int j) name score st"
  have step: "scan thr ty (c # cands) st = scan thr ty cands ?st'" by (simp add: c scan_Cons)
  have a: "best_score ?st' \<le> B"
    using Cons.prems c by (cases sc) (auto simp: consider_candidate_def)
  show ?case unfolding step using Cons.IH[OF a] Cons.prems(2) by auto
qed

lemma scan_unchanged:
  "\<forall>j name s. (j, name, Some s) \<in> set cands \<longrightarrow> s \<le> thr \<Longrightarrow> scan thr ty cands st = st"
proof (induction cands arbitrary: st)
  case Nil then show ?case by (simp add: scan_Nil)
next
  case (Cons c cands)
  obtain j name sc where c: "c = (j, name, sc)" by (cases c) auto
  have "\<forall>s. sc = Some s \<longrightarrow> s \<le> thr" using Cons.prems c by auto
  then have "(case sc of None \<Rightarrow> st | Some score \<Rightarrow> consider_candidate thr ty (int j) name score st) = st"
    by (cases sc) (auto simp: consider_candidate_def)
  then show ?case using Cons c by (simp add: scan_Cons)
qed

lemma name_candidates_mem:
  "(j, name, Some s) \<in> set (name_candidates pr names text) \<longleftrightarrow>
   j < length names \<and> name = names ! j \<and> length (clean (names ! j)) > 3 \<and>
   s = pr text (clean (names ! j))"
proof
  assume "(j, name, Some s) \<in> set (name_candidates pr names text)"
  then show "j < length names \<and> name = names ! j \<and> length (clean (names ! j)) > 3 \<and>
             s = pr text (clean (names ! j))"
    by (auto simp: name_candidates_def in_set_enumerate_eq split: if_splits)
next
  assume a: "j < length names \<and> name = names ! j \<and> length (clean (names ! j)) > 3 \<and>
             s = pr text (clean (names ! j))"
  then have "(j, clean (names ! j)) \<in> set (enumerate 0 (map clean names))"
    by (simp add: in_set_enumerate_eq)
  then have "(\<lambda>(j, bn). (j, names ! j, if bn \<noteq> [] \<and> length bn > 3 then Some (pr text bn) else None))
               (j, clean (names ! j)) \<in> set (name_candidates pr names text)"
    unfolding name_candidates_def set_map by (rule imageI)
  moreover have "clean (names ! j) \<noteq> []" using a by auto
  ultimately show "(j, name, Some s) \<in> set (name_candidates pr names text)"
    using a by simp
qed

lemma location_candidates_mem:
  "(j, name, Some s) \<in> set (location_candidates pr names locs text) \<longleftrightarrow>
   j < length locs \<and> name = names ! j \<and> truthy (locs ! j) \<and>
   s = pr text (clean (the (locs ! j)))"
proof
  assume "(j, name, Some s) \<in> set (location_candidates pr names locs text)"
  then show "j < length locs \<and> name = names ! j \<and> truthy (locs ! j) \<and>
             s = pr text (clean (the (locs ! j)))"
    by (auto simp: location_candidates_def in_set_enumerate_eq split: if_splits)
next
  assume a: "j < length locs \<and> name = names ! j \<and> truthy (locs ! j) \<and>
             s = pr text (clean (the (locs ! j)))"
  then have "(j, locs ! j) \<in> set (enumerate 0 locs)"
    by (simp add: in_set_enumerate_eq)
  then have "(\<lambda>(j, bl). (j, names ! j, if truthy bl then Some (pr text (clean (the bl))) else None))
               (j, locs ! j) \<in> set (location_candidates pr names locs text)"
    unfolding location_candidates_def set_map by (rule imageI)
  then show "(j, name, Some s) \<in> set (location_candidates pr names locs text)"
    using a by auto
qed

lemma clean_Nil: "clean [] = []"
  by (simp add: clean_def lower_def)


lemma accepted_name_truthy:
  "accepted_by thr ty (name_candidates pr names text) st \<Longrightarrow> truthy (best_match st)"
proof -
  assume "accepted_by thr ty (name_candidates pr names text) st"
  then obtain j name where m: "(j, name, Some (best_score st)) \<in> set (name_candidates pr names text)"
    and b: "best_match st = Some name" by (auto simp: accepted_by_def)
  from m have "length (clean name) > 3" by (simp add: name_candidates_mem)
  then have "name \<noteq> []" using clean_Nil by auto
  then show ?thesis using b by simp
qed

lemma run_passes_cases:
  "run_passes pr bs n l = no_match \<or>
   accepted_by 80 location_to_name (name_candidates pr (map fst bs) (clean l)) (run_passes pr bs n l) \<or>
   accepted_by 80 location_to_location
     (location_candidates pr (map fst bs) (map snd bs) (clean l)) (run_passes pr bs n l) \<or>
   accepted_by 85 name_to_name (name_candidates pr (map fst bs) (clean n)) (run_passes pr bs n l)"
proof -
  let ?names = "map fst bs" and ?locs = "map snd bs"
  let ?c1 = "name_candidates pr ?names (clean l)"
  let ?c2 = "location_candidates pr ?names ?locs (clean l)"
  let ?c3 = "name_candidates pr ?names (clean n)"
  let ?st1 = "scan 80 location_to_name ?c1 no_match"
  let ?st2 = "scan 80 location_to_location ?c2 no_match"
  from scan_result[of 80 location_to_name ?c1 no_match] show ?thesis
  proof
    assume acc: "accepted_by 80 location_to_name ?c1 ?st1"
    then have "truthy (best_match ?st1)" by (rule accepted_name_truthy)
    then have "run_passes pr bs n l = ?st1"
      by (simp add: run_passes_def Let_def pass_location_to_name_scan)
    then show ?thesis using acc by simp
  next
    assume eq1: "?st1 = no_match"
    then have r2: "run_passes pr bs n l =
        (if \<not> truthy (best_match ?st2) then scan 85 name_to_name ?c3 ?st2 else ?st2)"
      by (simp add: run_passes_def Let_def pass_location_to_name_scan
            pass_location_to_location_scan pass_name_to_name_scan no_match_def)
    show ?thesis
    proof (cases "truthy (best_match ?st2)")
      case True
      then have "run_passes pr bs n l = ?st2" using r2 by simp
      then show ?thesis using scan_result[of 80 location_to_location ?c2 no_match] by auto
    next
      case False
      then have r3: "run_passes pr bs n l = scan 85 name_to_name ?c3 ?st2" using r2 by simp
      from scan_result[of 85 name_to_name ?c3 ?st2] show ?thesis
      proof
        assume "accepted_by 85 name_to_name ?c3 (scan 85 name_to_name ?c3 ?st2)"
        then show ?thesis using r3 by simp
      next
        assume "scan 85 name_to_name ?c3 ?st2 = ?st2"
        then have "run_passes pr bs n l = ?st2" using r3 by simp
        then show ?thesis using scan_result[of 80 location_to_location ?c2 no_match] by auto
      qed
    qed
  qed
qed

lemma match_event_accepted:
  assumes "match_event pr bs en el = Some (j, ty, s)"
  shows "\<exists>k < length bs. j = int k \<and>
      ((ty = Some location_to_name \<and> 3 < length (clean (fst (bs ! k))) \<and>
        s = pr (clean (the el)) (clean (fst (bs ! k))) \<and> 80 < s) \<or>
       (ty = Some location_to_location \<and> truthy (snd (bs ! k)) \<and>
        s = pr (clean (the el)) (clean (the (snd (bs ! k)))) \<and> 80 < s) \<or>
       (ty = Some name_to_name \<and> 3 < length (clean (fst (bs ! k))) \<and>
        s = pr (clean (case en of Some n \<Rightarrow> n | None \<Rightarrow> [])) (clean (fst (bs ! k))) \<and> 85 < s))"
proof -
  let ?n = "case en of Some n \<Rightarrow> n | None \<Rightarrow> []"
  from assms obtain l where l: "el = Some l" "l \<noteq> []"
    by (cases el) (auto simp: match_event_def Let_def split: if_splits)
  let ?st = "run_passes pr bs ?n l"
  from assms l have st: "match_index ?st = j" "match_type ?st = ty" "best_score ?st = s"
    "truthy (best_match ?st)"
    by (auto simp: match_event_def Let_def split: if_splits)
  have nn: "?st \<noteq> no_match" using st(4) by (auto simp: no_match_def)
  from run_passes_cases[of pr bs ?n l] nn
  consider
    (a) "accepted_by 80 location_to_name (name_candidates pr (map fst bs) (clean l)) ?st"
  | (b) "accepted_by 80 location_to_location
           (location_candidates pr (map fst bs) (map snd bs) (clean l)) ?st"
  | (c) "accepted_by 85 name_to_name (name_candidates pr (map fst bs) (clean ?n)) ?st"
    by blast
  then show ?thesis
  proof cases
    case a
    then obtain k name where "(k, name, Some s) \<in> set (name_candidates pr (map fst bs) (clean l))"
      "80 < s" "j = int k" "ty = Some location_to_name"
      using st by (auto simp: accepted_by_def)
    then show ?thesis using l by (auto simp: name_candidates_mem)
  next
    case b
    then obtain k name where
      "(k, name, Some s) \<in> set (location_candidates pr (map fst bs) (map snd bs) (clean l))"
      "80 < s" "j = int k" "ty = Some location_to_location"
      using st by (auto simp: accepted_by_def)
    then show ?thesis using l by (auto simp: location_candidates_mem)
  next
    case c
    then obtain k name where "(k, name, Some s) \<in> set (name_candidates pr (map fst bs) (clean ?n))"
      "85 < s" "j = int k" "ty = Some name_to_name"
      using st by (auto simp: accepted_by_def)
    then show ?thesis using l by (auto simp: name_candidates_mem)
  qed
qed

lemma match_event_81_location_to_name:
  assumes "truthy el"
    and ex: "\<exists>b \<in> set bs. 3 < length (clean (fst b)) \<and> pr (clean (the el)) (clean (fst b)) = 81"
    and all: "\<forall>b \<in> set bs. 3 < length (clean (fst b)) \<longrightarrow> pr (clean (the el)) (clean (fst b)) \<le> 81"
  shows "\<exists>j. match_event pr bs en el = Some (j, Some location_to_name, 81)"
proof -
  have a2: "\<exists>k < length bs. 3 < length (clean (fst (bs ! k))) \<and>
           pr (clean (the el)) (clean (fst (bs ! k))) = 81"
    using ex by (metis in_set_conv_nth)
  have a3: "\<forall>k < length bs. 3 < length (clean (fst (bs ! k))) \<longrightarrow>
           pr (clean (the el)) (clean (fst (bs ! k))) \<le> 81"
    using all by simp
  let ?n = "case en of Some n \<Rightarrow> n | None \<Rightarrow> []"
  from assms(1) obtain l where l: "el = Some l" "l \<noteq> []" by (cases el) auto
  let ?c1 = "name_candidates pr (map fst bs) (clean l)"
  let ?st1 = "scan 80 location_to_name ?c1 no_match"
  from a2 l obtain k where k0: "k < length bs" "3 < length (clean (fst (bs ! k)))"
    "pr (clean l) (clean (fst (bs ! k))) = 81" by auto
  then have k: "(k, fst (bs ! k), Some 81) \<in> set ?c1"
    by (simp add: name_candidates_mem)
  have lo: "81 \<le> best_score ?st1"
    using scan_score_lower[of no_match 80 location_to_name ?c1] k by force
  have "\<forall>j name s. (j, name, Some s) \<in> set ?c1 \<longrightarrow> s \<le> 81"
    using a3 l by (auto simp: name_candidates_mem)
  then have hi: "best_score ?st1 \<le> 81"
    by (intro scan_score_upper) (simp_all add: no_match_def)
  have sc: "best_score ?st1 = 81" using lo hi by simp
  then have "?st1 \<noteq> no_match" by (auto simp: no_match_def)
  then have acc: "accepted_by 80 location_to_name ?c1 ?st1"
    using scan_result[of 80 location_to_name ?c1 no_match] by blast
  then have tr: "truthy (best_match ?st1)" by (rule accepted_name_truthy)
  then have rp: "run_passes pr bs ?n l = ?st1"
    by (simp add: run_passes_def Let_def pass_location_to_name_scan)
  from acc have "match_index ?st1 \<ge> 0" "match_type ?st1 = Some location_to_name"
    by (auto simp: accepted_by_def)
  then show ?thesis using l rp tr sc by (simp add: match_event_def Let_def)
qed

lemma match_event_81_location_to_location:
  assumes "truthy el"
    and h2: "\<forall>b \<in> set bs. fst b \<noteq> []"
    and h3: "\<forall>b \<in> set bs. 3 < length (clean (fst b)) \<longrightarrow> pr (clean (the el)) (clean (fst b)) \<le> 80"
    and h4: "\<exists>b \<in> set bs. truthy (snd b) \<and> pr (clean (the el)) (clean (the (snd b))) = 81"
    and h5: "\<forall>b \<in> set bs. truthy (snd b) \<longrightarrow> pr (clean (the el)) (clean (the (snd b))) \<le> 81"
  shows "\<exists>j. match_event pr bs en el = Some (j, Some location_to_location, 81)"
proof -
  have a2: "\<forall>k < length bs. fst (bs ! k) \<noteq> []" using h2 by simp
  have a3: "\<forall>k < length bs. 3 < length (clean (fst (bs ! k))) \<longrightarrow>
           pr (clean (the el)) (clean (fst (bs ! k))) \<le> 80" using h3 by simp
  have a4: "\<exists>k < length bs. truthy (snd (bs ! k)) \<and>
           pr (clean (the el)) (clean (the (snd (bs ! k)))) = 81"
    using h4 by (metis in_set_conv_nth)
  have a5: "\<forall>k < length bs. truthy (snd (bs ! k)) \<longrightarrow>
           pr (clean (the el)) (clean (the (snd (bs ! k)))) \<le> 81" using h5 by simp
  let ?n = "case en of Some n \<Rightarrow> n | None \<Rightarrow> []"
  from assms(1) obtain l where l: "el = Some l" "l \<noteq> []" by (cases el) auto
  let ?c1 = "name_candidates pr (map fst bs) (clean l)"
  let ?c2 = "location_candidates pr (map fst bs) (map snd bs) (clean l)"
  let ?st2 = "scan 80 location_to_location ?c2 no_match"
  have "\<forall>j name s. (j, name, Some s) \<in> set ?c1 \<longrightarrow> s \<le> 80"
    using a3 l by (auto simp: name_candidates_mem)
  then have st1: "scan 80 location_to_name ?c1 no_match = no_match" by (rule scan_unchanged)
  from a4 l obtain k where k0: "k < length bs" "truthy (snd (bs ! k))"
    "pr (clean l) (clean (the (snd (bs ! k)))) = 81" by auto
  then have k: "(k, map fst bs ! k, Some 81) \<in> set ?c2"
    by (simp add: location_candidates_mem)
  have lo: "81 \<le> best_score ?st2"
    using scan_score_lower[of no_match 80 location_to_location ?c2] k by force
  have "\<forall>j name s. (j, name, Some s) \<in> set ?c2 \<longrightarrow> s \<le> 81"
    using a5 l by (auto simp: location_candidates_mem)
  then have hi: "best_score ?st2 \<le> 81"
    by (intro scan_score_upper) (simp_all add: no_match_def)
  have sc: "best_score ?st2 = 81" using lo hi by simp
  then have "?st2 \<noteq> no_match" by (auto simp: no_match_def)
  then have acc: "accepted_by 80 location_to_location ?c2 ?st2"
    using scan_result[of 80 location_to_location ?c2 no_match] by blast
  then obtain j name where jn: "(j, name, Some (best_score ?st2)) \<in> set ?c2"
    "best_match ?st2 = Some name" "match_index ?st2 = int j"
    "match_type ?st2 = Some location_to_location"
    by (auto simp: accepted_by_def)
  then have "j < length bs" "name = fst (bs ! j)" by (auto simp: location_candidates_mem)
  then have tr: "truthy (best_match ?st2)" using a2 jn(2) by simp
  have rp: "run_passes pr bs ?n l = ?st2"
    using st1 tr
    by (simp add: run_passes_def Let_def pass_location_to_name_scan
          pass_location_to_location_scan no_match_def)
  show ?thesis using l rp tr sc jn(3,4) by (simp add: match_event_def Let_def)
qed


text \<open>
  C4.  What the dataset matcher records was accepted by one of the three loops: by
  location-to-name or location-to-location with the candidate's score against the cleaned
  event location strictly above 80 (so never with a score of exactly 80), or by
  name-to-name with the candidate's score against the cleaned event name strictly above
  85.  A name candidate that scores 81 against the location, when no name candidate
  scores more, is accepted by location-to-name with score 81; and when no name candidate
  scores above 80, a location candidate that scores 81, when none scores more, is accepted
  by location-to-location with score 81 (business names are not empty).
\<close>

theorem fuzzy_thresholds:
  "(match_event pr businesses event_Name event_Location = Some (j, ty, s) \<longrightarrow>
      (\<exists>k < length businesses. j = int k \<and>
         ((ty = Some location_to_name \<and> 3 < length (clean (fst (businesses ! k))) \<and>
           s = pr (clean (the event_Location)) (clean (fst (businesses ! k))) \<and> 80 < s) \<or>
          (ty = Some location_to_location \<and> truthy (snd (businesses ! k)) \<and>
           s = pr (clean (the event_Location)) (clean (the (snd (businesses ! k)))) \<and> 80 < s) \<or>
          (ty = Some name_to_name \<and> 3 < length (clean (fst (businesses ! k))) \<and>
           s = pr (clean (case event_Name of Some n \<Rightarrow> n | None \<Rightarrow> []))
                 (clean (fst (businesses ! k))) \<and> 85 < s)))) \<and>
   (truthy event_Location \<and>
    (\<exists>b \<in> set businesses. 3 < length (clean (fst b)) \<and>
        pr (clean (the event_Location)) (clean (fst b)) = 81) \<and>
    (\<forall>b \<in> set businesses. 3 < length (clean (fst b)) \<longrightarrow>
        pr (clean (the event_Location)) (clean (fst b)) \<le> 81) \<longrightarrow>
      (\<exists>j'. match_event pr businesses event_Name event_Location =
              Some (j', Some location_to_name, 81))) \<and>
   (truthy event_Location \<and> (\<forall>b \<in> set businesses. fst b \<noteq> []) \<and>
    (\<forall>b \<in> set businesses. 3 < length (clean (fst b)) \<longrightarrow>
        pr (clean (the event_Location)) (clean (fst b)) \<le> 80) \<and>
    (\<exists>b \<in> set businesses. truthy (snd b) \<and>
        pr (clean (the event_Location)) (clean (the (snd b))) = 81) \<and>
    (\<forall>b \<in> set businesses. truthy (snd b) \<longrightarrow>
        pr (clean (the event_Location)) (clean (the (snd b))) \<le> 81) \<longrightarrow>
      (\<exists>j'. match_event pr businesses event_Name event_Location =
              Some (j', Some location_to_location, 81)))"
  using match_event_accepted[of pr businesses event_Name event_Location j ty s]
    match_event_81_location_to_name[of event_Location businesses pr event_Name]
    match_event_81_location_to_location[of event_Location businesses pr event_Name]
  by (intro conjI impI) blast+

theorem fuzzy_thresholds_witness:
  "match_event ratio_name_81 gin_joint_businesses (Some ''Jazz Night'') (Some ''The Joint, East Bay'') =
     Some (0, Some location_to_name, 81) \<and>
   match_event ratio_location_81 gin_joint_businesses (Some ''Jazz Night'') (Some ''The Joint, East Bay'') =
     Some (0, Some location_to_location, 81) \<and>
   match_event ratio_event_name_86 gin_joint_businesses (Some ''Jazz at the Joint'')
     (Some ''The Joint, East Bay'') = Some (0, Some name_to_name, 86) \<and>
   (86::int) > 85"
proof -
  let ?el = "Some ''The Joint, East Bay''"
  have t: "truthy ?el" by simp
  have n1: "\<exists>b \<in> set gin_joint_businesses. 3 < length (clean (fst b)) \<and>
        ratio_name_81 (clean (the ?el)) (clean (fst b)) = 81" by code_simp
  have n2: "\<forall>b \<in> set gin_joint_businesses. 3 < length (clean (fst b)) \<longrightarrow>
        ratio_name_81 (clean (the ?el)) (clean (fst b)) \<le> 81" by code_simp
  have l1: "\<forall>b \<in> set gin_joint_businesses. fst b \<noteq> []" by code_simp
  have l2: "\<forall>b \<in> set gin_joint_businesses. 3 < length (clean (fst b)) \<longrightarrow>
        ratio_location_81 (clean (the ?el)) (clean (fst b)) \<le> 80" by code_simp
  have l3: "\<exists>b \<in> set gin_joint_businesses. truthy (snd b) \<and>
        ratio_location_81 (clean (the ?el)) (clean (the (snd b))) = 81" by code_simp
  have l4: "\<forall>b \<in> set gin_joint_businesses. truthy (snd b) \<longrightarrow>
        ratio_location_81 (clean (the ?el)) (clean (the (snd b))) \<le> 81" by code_simp
  have e1: "match_event ratio_name_81 gin_joint_businesses (Some ''Jazz Night'') ?el =
              Some (0, Some location_to_name, 81)" by code_simp
  have e3: "match_event ratio_event_name_86 gin_joint_businesses (Some ''Jazz at the Joint'') ?el =
              Some (0, Some name_to_name, 86)" by code_simp
  have A: "\<exists>j'. match_event ratio_name_81 gin_joint_businesses (Some ''Jazz Night'') ?el =
              Some (j', Some location_to_name, 81)"
    using fuzzy_thresholds[of ratio_name_81 gin_joint_businesses "Some ''Jazz Night''" ?el]
      t n1 n2 by blast
  have B: "\<exists>j'. match_event ratio_location_81 gin_joint_businesses (Some ''Jazz Night'') ?el =
              Some (j', Some location_to_location, 81)"
    using fuzzy_thresholds[of ratio_location_81 gin_joint_businesses "Some ''Jazz Night''" ?el]
      t l1 l2 l3 l4 by blast
  have C: "\<exists>k < length gin_joint_businesses. (0::int) = int k \<and>
         ((Some name_to_name = Some location_to_name \<and> 3 < length (clean (fst (gin_joint_businesses ! k))) \<and>
           86 = ratio_event_name_86 (clean (the ?el)) (clean (fst (gin_joint_businesses ! k))) \<and> (80::int) < 86) \<or>
          (Some name_to_name = Some location_to_location \<and> truthy (snd (gin_joint_businesses ! k)) \<and>
           86 = ratio_event_name_86 (clean (the ?el)) (clean (the (snd (gin_joint_businesses ! k)))) \<and> (80::int) < 86) \<or>
          (Some name_to_name = Some name_to_name \<and> 3 < length (clean (fst (gin_joint_businesses ! k))) \<and>
           86 = ratio_event_name_86 (clean (case Some ''Jazz at the Joint'' of Some n \<Rightarrow> n | None \<Rightarrow> []))
                 (clean (fst (gin_joint_businesses ! k))) \<and> (85::int) < 86))"
    using fuzzy_thresholds[of ratio_event_name_86 gin_joint_businesses "Some ''Jazz at the Joint''" ?el
        0 "Some name_to_name" 86] e3 by blast
  have B': "match_event ratio_location_81 gin_joint_businesses (Some ''Jazz Night'') ?el =
              Some (0, Some location_to_location, 81)" by code_simp
  from A B C e1 B' e3 show ?thesis by simp
qed




text \<open>
  Method 1 of the ingestion-time matcher decides the result whenever the id it finds is
  not 0.
\<close>

lemma location_exact_nonzero:
  "truthy event_location \<Longrightarrow>
   map_of (business_by_location idx) (lower (the event_location)) = Some b \<Longrightarrow> b \<noteq> 0 \<Longrightarrow>
   find_matching_business idx event_name event_location = Some b"
  by (simp add: find_matching_business_def method1_def method2_def method3_def method4_def)

text \<open>
  C7 fails for the business with id 0.  The location of the event is a key of the
  exact-location map, with value 0; the guards \<open>not business_id\<close> take 0 for "no match yet",
  method 2 runs and returns business 1, whose name occurs in the location.
\<close>

theorem location_exact_id_zero_falls_through:
  "map_of (business_by_location (load_index gin_joint_catalog)) (lower ''182 East Bay St'') = Some 0 \<and>
   find_matching_business (load_index gin_joint_catalog) (Some ''Live Jazz Night'')
     (Some ''182 East Bay St'') = Some 1"
  by code_simp

section \<open>Properties of the dates\<close>

lemma digit_chr_code: "a < 10 \<Longrightarrow> (of_char (digit_chr a) :: nat) = 48 + a"
proof -
  assume "a < 10"
  then have "a = 0 \<or> a = 1 \<or> a = 2 \<or> a = 3 \<or> a = 4 \<or> a = 5 \<or> a = 6 \<or> a = 7 \<or> a = 8 \<or> a = 9"
    by arith
  then show ?thesis by (elim disjE) (simp_all add: digit_chr_def digit_chars_def)
qed

lemma digit_chr_less: "a < 10 \<Longrightarrow> b < 10 \<Longrightarrow> digit_chr a < digit_chr b \<longleftrightarrow> a < b"
  by (simp add: less_char_def digit_chr_code)

lemma digit_chr_eq: "a < 10 \<Longrightarrow> b < 10 \<Longrightarrow> digit_chr a = digit_chr b \<longleftrightarrow> a = b"
  by (metis digit_chr_code add_left_cancel)

lemma days_before_year_Suc:
  assumes "1 \<le> y"
  shows "days_before_year (y + 1) = days_before_year y + (if is_leap y then 366 else 365)"
proof -
  obtain n where n: "y = Suc n" using assms by (cases y) auto
  have h1: "Suc n mod 100 = 0 \<Longrightarrow> Suc n mod 4 = 0"
    using mod_mod_cancel[of 4 100 "Suc n"] by simp
  have h2: "Suc n mod 400 = 0 \<Longrightarrow> Suc n mod 100 = 0"
    using mod_mod_cancel[of 100 400 "Suc n"] by simp
  define a b c where "a = n div 4" and "b = n div 100" and "c = n div 400"
  have h3: "b \<le> a" unfolding a_def b_def
    by (rule div_le_mono2) simp_all
  have s4: "Suc n div 4 = (if Suc n mod 4 = 0 then Suc a else a)"
    and s100: "Suc n div 100 = (if Suc n mod 100 = 0 then Suc b else b)"
    and s400: "Suc n div 400 = (if Suc n mod 400 = 0 then Suc c else c)"
    by (simp_all add: div_Suc a_def b_def c_def)
  have l: "days_before_year (y + 1) = Suc n * 365 + Suc n div 4 - Suc n div 100 + Suc n div 400"
    by (simp add: days_before_year_def n)
  have r: "days_before_year y = n * 365 + a - b + c"
    by (simp add: days_before_year_def n a_def b_def c_def)
  have "Suc n * 365 + Suc n div 4 - Suc n div 100 + Suc n div 400 =
        n * 365 + a - b + c + (if is_leap (Suc n) then 366 else 365)"
    unfolding s4 s100 s400 is_leap_def
    using h1 h2 h3 by auto
  then show ?thesis using l r by (simp only: n)
qed


lemma days_before_month_Suc:
  "1 \<le> m \<Longrightarrow> m < 12 \<Longrightarrow>
   days_before_month y (m + 1) = days_before_month y m + days_in_month y m"
proof -
  assume "1 \<le> m" "m < 12"
  then have "m = 1 \<or> m = 2 \<or> m = 3 \<or> m = 4 \<or> m = 5 \<or> m = 6 \<or> m = 7 \<or> m = 8 \<or> m = 9 \<or>
             m = 10 \<or> m = 11" by arith
  then show ?thesis
    by (elim disjE) (simp_all add: days_before_month_def days_in_month_def)
qed

lemma days_before_month_12:
  "days_before_month y 12 + days_in_month y 12 = (if is_leap y then 366 else 365)"
  by (simp add: days_before_month_def days_in_month_def)

lemma days_before_month_mono:
  "1 \<le> m1 \<Longrightarrow> m1 < m2 \<Longrightarrow> m2 \<le> 12 \<Longrightarrow>
   days_before_month y m1 + days_in_month y m1 \<le> days_before_month y m2"
proof (induction m2)
  case 0 then show ?case by simp
next
  case (Suc m2)
  show ?case
  proof (cases "m1 = m2")
    case True
    then show ?thesis using Suc.prems days_before_month_Suc[of m1 y] by simp
  next
    case False
    then have lt: "m1 < m2" using Suc.prems by simp
    have "days_before_month y m1 + days_in_month y m1 \<le> days_before_month y m2"
      using Suc.IH[OF Suc.prems(1) lt] Suc.prems(3) by simp
    also have "\<dots> \<le> days_before_month y (Suc m2)"
      using days_before_month_Suc[of m2 y] Suc.prems lt by simp
    finally show ?thesis .
  qed
qed

lemma day_in_year_bound:
  assumes "valid_date d"
  shows "days_before_month (year d) (month d) + day d \<le> (if is_leap (year d) then 366 else 365)"
proof (cases "month d = 12")
  case True
  then show ?thesis using assms days_before_month_12[of "year d"]
    by (simp add: valid_date_def split: if_splits)
next
  case False
  then have "days_before_month (year d) (month d) + days_in_month (year d) (month d)
             \<le> days_before_month (year d) 12"
    using assms by (intro days_before_month_mono) (simp_all add: valid_date_def)
  moreover have "days_before_month (year d) 12 \<le> (if is_leap (year d) then 366 else 365)"
    using days_before_month_12[of "year d"] by (simp split: if_splits)
  ultimately show ?thesis using assms by (simp add: valid_date_def split: if_splits)
qed

lemma days_before_year_mono:
  "1 \<le> y1 \<Longrightarrow> y1 < y2 \<Longrightarrow>
   days_before_year y1 + (if is_leap y1 then 366 else 365) \<le> days_before_year y2"
proof (induction y2)
  case 0 then show ?case by simp
next
  case (Suc y2)
  show ?case
  proof (cases "y1 = y2")
    case True
    then show ?thesis using days_before_year_Suc[of y1] Suc.prems by simp
  next
    case False
    then have lt: "y1 < y2" using Suc.prems by simp
    have "days_before_year y1 + (if is_leap y1 then 366 else 365) \<le> days_before_year y2"
      using Suc.IH[OF Suc.prems(1) lt] .
    also have "\<dots> \<le> days_before_year (Suc y2)"
      using days_before_year_Suc[of y2] lt Suc.prems by simp
    finally show ?thesis .
  qed
qed

lemma toordinal_less:
  assumes "valid_date a" "valid_date b" "date_less a b"
  shows "toordinal a < toordinal b"
proof -
  consider (y) "year a < year b"
    | (m) "year a = year b" "month a < month b"
    | (d) "year a = year b" "month a = month b" "day a < day b"
    using assms(3) by (auto simp: date_less_def)
  then show ?thesis
  proof cases
    case y
    have "toordinal a \<le> days_before_year (year a) + (if is_leap (year a) then 366 else 365)"
      using day_in_year_bound[OF assms(1)] by (simp add: toordinal_def)
    also have "\<dots> \<le> days_before_year (year b)"
      using days_before_year_mono[of "year a" "year b"] y assms(1) by (simp add: valid_date_def)
    also have "\<dots> < toordinal b" using assms(2) by (simp add: toordinal_def valid_date_def)
    finally show ?thesis .
  next
    case m
    have "days_before_month (year a) (month a) + days_in_month (year a) (month a)
          \<le> days_before_month (year a) (month b)"
      using m assms by (intro days_before_month_mono) (simp_all add: valid_date_def)
    then show ?thesis using m assms by (simp add: toordinal_def valid_date_def)
  next
    case d
    then show ?thesis by (simp add: toordinal_def)
  qed
qed

lemma date_le_cases: "date_le a b \<longleftrightarrow> date_less a b \<or> (year a = year b \<and> month a = month b \<and> day a = day b)"
  by (auto simp: date_le_def date_less_def)

lemma date_total: "date_le a b \<or> date_less b a"
  by (auto simp: date_le_def date_less_def)

lemma toordinal_le_iff:
  assumes "valid_date a" "valid_date b"
  shows "date_le a b \<longleftrightarrow> toordinal a \<le> toordinal b"
proof
  assume "date_le a b"
  then show "toordinal a \<le> toordinal b"
    using toordinal_less[OF assms] by (auto simp: date_le_cases toordinal_def)
next
  assume le: "toordinal a \<le> toordinal b"
  show "date_le a b"
  proof (rule ccontr)
    assume "\<not> date_le a b"
    then have "date_less b a" using date_total by blast
    then have "toordinal b < toordinal a" using toordinal_less[OF assms(2,1)] by simp
    then show False using le by simp
  qed
qed

lemma next_day_ordinal:
  assumes "valid_date d"
  shows "toordinal (next_day d) = toordinal d + 1"
proof -
  consider (a) "day d < days_in_month (year d) (month d)"
    | (b) "day d = days_in_month (year d) (month d)" "month d < 12"
    | (c) "day d = days_in_month (year d) (month d)" "month d = 12"
  proof -
    have "day d \<le> days_in_month (year d) (month d)" "month d \<le> 12"
      using assms by (simp_all add: valid_date_def)
    then have "day d < days_in_month (year d) (month d) \<or>
               (day d = days_in_month (year d) (month d) \<and> month d < 12) \<or>
               (day d = days_in_month (year d) (month d) \<and> month d = 12)" by linarith
    then show ?thesis using a b c by blast
  qed
  then show ?thesis
  proof cases
    case a then show ?thesis by (simp add: next_day_def toordinal_def)
  next
    case b
    then show ?thesis
      using days_before_month_Suc[of "month d" "year d"] assms
      by (simp add: next_day_def toordinal_def valid_date_def)
  next
    case c
    then show ?thesis
      using days_before_month_12[of "year d"] days_before_year_Suc[of "year d"] assms
      by (simp add: next_day_def toordinal_def valid_date_def days_before_month_def)
  qed
qed

lemma next_day_valid:
  assumes "valid_date d" "toordinal d < toordinal max_date"
  shows "valid_date (next_day d)"
proof -
  have nm: "\<not> (year d = 9999 \<and> month d = 12 \<and> day d = 31)"
    using assms(2) by (auto simp: toordinal_def max_date_def)
  consider (a) "day d < days_in_month (year d) (month d)"
    | (b) "day d = days_in_month (year d) (month d)" "month d < 12"
    | (c) "day d = days_in_month (year d) (month d)" "month d = 12"
  proof -
    have "day d \<le> days_in_month (year d) (month d)" "month d \<le> 12"
      using assms(1) by (simp_all add: valid_date_def)
    then have "day d < days_in_month (year d) (month d) \<or>
               (day d = days_in_month (year d) (month d) \<and> month d < 12) \<or>
               (day d = days_in_month (year d) (month d) \<and> month d = 12)" by linarith
    then show ?thesis using a b c by blast
  qed
  then show ?thesis
  proof cases
    case a then show ?thesis using assms(1) by (simp add: next_day_def valid_date_def)
  next
    case b then show ?thesis using assms(1)
      by (simp add: next_day_def valid_date_def days_in_month_def)
  next
    case c
    then have "day d = 31" by (simp add: days_in_month_def)
    then have "year d < 9999" using nm c assms(1) by (simp add: valid_date_def)
    then show ?thesis using c by (simp add: next_day_def valid_date_def days_in_month_def)
  qed
qed

lemma add_days_ordinal:
  "valid_date d \<Longrightarrow> toordinal d + n \<le> toordinal max_date \<Longrightarrow>
   valid_date (add_days d n) \<and> toordinal (add_days d n) = toordinal d + n"
proof (induction n arbitrary: d)
  case 0 then show ?case by simp
next
  case (Suc n)
  have v: "valid_date (next_day d)" using Suc.prems by (intro next_day_valid) simp_all
  have o: "toordinal (next_day d) = toordinal d + 1" using Suc.prems(1) by (rule next_day_ordinal)
  show ?case using Suc.IH[OF v] o Suc.prems(2) by simp
qed

lemma length_show_fixed: "length (show_fixed k n) = k"
  by (induction k arbitrary: n) simp_all

lemma show_fixed_zero: "show_fixed k 0 = replicate k (CHR ''0'')"
  by (induction k) (simp_all add: digit_chr_def digit_chars_def replicate_append_same)

lemma zfill_snoc: "length xs < Suc k \<Longrightarrow> zfill (Suc k) (xs @ [c]) = zfill k xs @ [c]"
  by (simp add: zfill_def)

lemma fmt_0d_show_fixed: "1 \<le> k \<Longrightarrow> n < 10 ^ k \<Longrightarrow> fmt_0d k n = show_fixed k n"
proof (induction k arbitrary: n)
  case 0 then show ?case by simp
next
  case (Suc k)
  show ?case
  proof (cases "n < 10")
    case True
    then have "show_nat n = [digit_chr n]" by (simp add: show_nat.simps)
    then show ?thesis using True
      by (simp add: fmt_0d_def zfill_def show_fixed_zero)
  next
    case False
    then have k: "1 \<le> k" using Suc.prems(2) by (cases k) simp_all
    have d: "n div 10 < 10 ^ k" using Suc.prems(2) by (simp add: less_mult_imp_div_less)
    have ih: "zfill k (show_nat (n div 10)) = show_fixed k (n div 10)"
      using Suc.IH[OF k d] by (simp add: fmt_0d_def)
    have "length (show_nat (n div 10)) \<le> k"
    proof -
      have "length (zfill k (show_nat (n div 10))) = k" using ih by (simp add: length_show_fixed)
      then show ?thesis by (simp add: zfill_def)
    qed
    then have len: "length (show_nat (n div 10)) < Suc k" by simp
    have "show_nat n = show_nat (n div 10) @ [digit_chr (n mod 10)]"
      using False by (subst show_nat.simps) simp
    then show ?thesis using zfill_snoc[OF len] ih by (simp add: fmt_0d_def)
  qed
qed

lemma append_less_same_length:
  "length xs = length ys \<Longrightarrow>
   (xs @ us < ys @ vs) = (xs < ys \<or> (xs = ys \<and> us < vs))" for xs :: string
  by (induction xs ys rule: list_induct2) auto

lemma lex10:
  "(r1::nat) < 10 \<Longrightarrow> r2 < 10 \<Longrightarrow>
   (q1 < q2 \<or> (q1 = q2 \<and> r1 < r2)) \<longleftrightarrow> q1 * 10 + r1 < q2 * 10 + r2"
  by arith

lemma base10_less:
  "((n::nat) div 10 < m div 10 \<or> (n div 10 = m div 10 \<and> n mod 10 < m mod 10)) \<longleftrightarrow> n < m"
proof -
  have "n mod 10 < 10" "m mod 10 < 10" by simp_all
  from lex10[OF this, of "n div 10" "m div 10"] show ?thesis by (simp only: div_mult_mod_eq)
qed

lemma div10_less: "(n::nat) < 10 ^ Suc k \<Longrightarrow> n div 10 < 10 ^ k"
  by (simp add: less_mult_imp_div_less)

lemma show_fixed_order:
  "n < 10 ^ k \<Longrightarrow> m < 10 ^ k \<Longrightarrow>
   (show_fixed k n < show_fixed k m \<longleftrightarrow> n < m) \<and> (show_fixed k n = show_fixed k m \<longleftrightarrow> n = m)"
proof (induction k arbitrary: n m)
  case 0 then show ?case by simp
next
  case (Suc k)
  have dn: "n div 10 < 10 ^ k" and dm: "m div 10 < 10 ^ k"
    using Suc.prems by (simp_all add: div10_less)
  have ih: "show_fixed k (n div 10) < show_fixed k (m div 10) \<longleftrightarrow> n div 10 < m div 10"
    "show_fixed k (n div 10) = show_fixed k (m div 10) \<longleftrightarrow> n div 10 = m div 10"
    using Suc.IH[OF dn dm] by simp_all
  have dl: "digit_chr (n mod 10) < digit_chr (m mod 10) \<longleftrightarrow> n mod 10 < m mod 10"
    by (simp add: digit_chr_less)
  have de: "digit_chr (n mod 10) = digit_chr (m mod 10) \<longleftrightarrow> n mod 10 = m mod 10"
    by (simp add: digit_chr_eq)
  have a1: "(n div 10 < m div 10 \<or> (n div 10 = m div 10 \<and> n mod 10 < m mod 10)) \<longleftrightarrow> n < m"
    by (rule base10_less)
  have a2: "(n div 10 = m div 10 \<and> n mod 10 = m mod 10) \<longleftrightarrow> n = m"
    by (metis div_mult_mod_eq)
  have "show_fixed (Suc k) n < show_fixed (Suc k) m \<longleftrightarrow> n < m"
    using a1 by (simp add: append_less_same_length length_show_fixed ih dl)
  moreover have "show_fixed (Suc k) n = show_fixed (Suc k) m \<longleftrightarrow> n = m"
    using a2 by (simp add: ih de)
  ultimately show ?case by blast
qed

lemma strftime_show_fixed:
  "year d < 10000 \<Longrightarrow> month d < 100 \<Longrightarrow> day d < 100 \<Longrightarrow>
   strftime d = show_fixed 4 (year d) @ (CHR ''-'' # show_fixed 2 (month d) @
                  (CHR ''-'' # show_fixed 2 (day d)))"
  by (simp add: strftime_def fmt_0d_show_fixed)

lemma valid_date_bounds: "valid_date d \<Longrightarrow> year d < 10000 \<and> month d < 100 \<and> day d < 100"
  by (auto simp: valid_date_def days_in_month_def split: if_splits)

lemma strftime_less:
  assumes "valid_date a" "valid_date b"
  shows "strftime a < strftime b \<longleftrightarrow> date_less a b"
proof -
  have ba: "year a < 10 ^ 4" "month a < 10 ^ 2" "day a < 10 ^ 2"
    and bb: "year b < 10 ^ 4" "month b < 10 ^ 2" "day b < 10 ^ 2"
    using valid_date_bounds[OF assms(1)] valid_date_bounds[OF assms(2)] by simp_all
  note y = show_fixed_order[OF ba(1) bb(1)]
  note m = show_fixed_order[OF ba(2) bb(2)]
  note d = show_fixed_order[OF ba(3) bb(3)]
  have sa: "strftime a = show_fixed 4 (year a) @ (CHR ''-'' # show_fixed 2 (month a) @
                  (CHR ''-'' # show_fixed 2 (day a)))"
    using ba by (intro strftime_show_fixed) simp_all
  have sb: "strftime b = show_fixed 4 (year b) @ (CHR ''-'' # show_fixed 2 (month b) @
                  (CHR ''-'' # show_fixed 2 (day b)))"
    using bb by (intro strftime_show_fixed) simp_all
  show ?thesis
    unfolding sa sb date_less_def
    by (simp add: append_less_same_length length_show_fixed y m d)
qed

lemma strftime_eq:
  assumes "valid_date a" "valid_date b"
  shows "strftime a = strftime b \<longleftrightarrow> year a = year b \<and> month a = month b \<and> day a = day b"
proof -
  have ba: "year a < 10 ^ 4" "month a < 10 ^ 2" "day a < 10 ^ 2"
    and bb: "year b < 10 ^ 4" "month b < 10 ^ 2" "day b < 10 ^ 2"
    using valid_date_bounds[OF assms(1)] valid_date_bounds[OF assms(2)] by simp_all
  note y = show_fixed_order[OF ba(1) bb(1)]
  note m = show_fixed_order[OF ba(2) bb(2)]
  note d = show_fixed_order[OF ba(3) bb(3)]
  have sa: "strftime a = show_fixed 4 (year a) @ (CHR ''-'' # show_fixed 2 (month a) @
                  (CHR ''-'' # show_fixed 2 (day a)))"
    using ba by (intro strftime_show_fixed) simp_all
  have sb: "strftime b = show_fixed 4 (year b) @ (CHR ''-'' # show_fixed 2 (month b) @
                  (CHR ''-'' # show_fixed 2 (day b)))"
    using bb by (intro strftime_show_fixed) simp_all
  show ?thesis
    unfolding sa sb
    by (simp add: append_eq_append_conv length_show_fixed y m d)
qed

lemma strftime_le:
  assumes "valid_date a" "valid_date b"
  shows "strftime a \<le> strftime b \<longleftrightarrow> date_le a b"
  using strftime_less[OF assms] strftime_eq[OF assms]
  by (auto simp: order.order_iff_strict date_le_cases)

lemma strftime_le_ordinal:
  assumes "valid_date a" "valid_date b"
  shows "strftime a \<le> strftime b \<longleftrightarrow> toordinal a \<le> toordinal b"
  using strftime_le[OF assms] toordinal_le_iff[OF assms] by simp

lemma strftime_nonempty: "strftime d \<noteq> []"
  by (simp add: strftime_def)

lemma threshold_test:
  assumes "valid_date today" "toordinal today + 365 \<le> toordinal max_date" "valid_date d"
  shows "strftime d \<le> max_date_threshold today \<longleftrightarrow> days_between d today \<le> 365"
proof -
  have v: "valid_date (add_days today 365)" and o: "toordinal (add_days today 365) = toordinal today + 365"
    using add_days_ordinal[OF assms(1,2)] by simp_all
  show ?thesis
    unfolding max_date_threshold_def strftime_le_ordinal[OF assms(3) v] o days_between_def
    by linarith
qed


section \<open>Properties of the date filter and of the date extraction\<close>

text \<open>
  C8.  With \<open>today\<close> the date of now, an event whose date is the valid date \<open>d\<close>, written as
  \<open>YYYY-MM-DD\<close>, is not in the result of \<open>get_all_events\<close> when \<open>d\<close> is more than 365 days
  after today, and is kept by the filter when \<open>d\<close> is at most 365 days after today (or
  before it).  The years have four digits and \<open>today + 365 days\<close> is a date of \<open>datetime\<close>.
\<close>

theorem far_future_filter:
  "valid_date today \<and> 1000 \<le> year today \<and> toordinal today + 365 \<le> toordinal max_date \<and>
   valid_date d \<and> 1000 \<le> year d \<and> Date event = Some (strftime d) \<longrightarrow>
     (365 < days_between d today \<longrightarrow>
        event \<notin> set (get_all_events today web_events weekend_events mobile_events)) \<and>
     (days_between d today \<le> 365 \<and>
      event \<in> set (extend_unique (extend_unique web_events weekend_events) mobile_events) \<longrightarrow>
        event \<in> set (get_all_events today web_events weekend_events mobile_events))"
proof (intro impI, elim conjE)
  assume a: "valid_date today" "toordinal today + 365 \<le> toordinal max_date" "valid_date d"
    "Date event = Some (strftime d)"
  have t: "strftime d \<le> max_date_threshold today \<longleftrightarrow> days_between d today \<le> 365"
    using a(1,2,3) by (rule threshold_test)
  have k: "event \<in> set (filter_dates today evs) \<longleftrightarrow>
           event \<in> set evs \<and> days_between d today \<le> 365" for evs
    using t a(4) by (simp add: filter_dates_def strftime_nonempty)
  show "(365 < days_between d today \<longrightarrow>
        event \<notin> set (get_all_events today web_events weekend_events mobile_events)) \<and>
     (days_between d today \<le> 365 \<and>
      event \<in> set (extend_unique (extend_unique web_events weekend_events) mobile_events) \<longrightarrow>
        event \<in> set (get_all_events today web_events weekend_events mobile_events))"
    unfolding get_all_events_def k by simp
qed

theorem far_future_filter_witness:
  "event_on ''Late'' (Some ''2025-09-02'') \<notin>
     set (get_all_events september_1_2024
            [event_on ''Late'' (Some ''2025-09-02''), event_on ''Last'' (Some ''2025-09-01'')] [] []) \<and>
   event_on ''Last'' (Some ''2025-09-01'') \<in>
     set (get_all_events september_1_2024
            [event_on ''Late'' (Some ''2025-09-02''), event_on ''Last'' (Some ''2025-09-01'')] [] [])"
proof -
  let ?late = "\<lparr>year = 2025, month = 9, day = 2\<rparr>" and ?last = "\<lparr>year = 2025, month = 9, day = 1\<rparr>"
  let ?web = "[event_on ''Late'' (Some ''2025-09-02''), event_on ''Last'' (Some ''2025-09-01'')]"
  have v: "valid_date september_1_2024" "1000 \<le> year september_1_2024"
    "valid_date ?late" "1000 \<le> year ?late" "valid_date ?last" "1000 \<le> year ?last"
    by (simp_all add: september_1_2024_def valid_date_def days_in_month_def is_leap_def)
  have o: "toordinal september_1_2024 + 365 \<le> toordinal max_date"
    by (simp add: september_1_2024_def max_date_def toordinal_def days_before_year_def
          days_before_month_def is_leap_def)
  have d1: "365 < days_between ?late september_1_2024"
    by (simp add: september_1_2024_def days_between_def toordinal_def days_before_year_def
          days_before_month_def is_leap_def)
  have d2: "days_between ?last september_1_2024 \<le> 365"
    by (simp add: september_1_2024_def days_between_def toordinal_def days_before_year_def
          days_before_month_def is_leap_def)
  have s1: "Date (event_on ''Late'' (Some ''2025-09-02'')) = Some (strftime ?late)"
    by (simp add: event_on_def strftime_def fmt_0d_def zfill_def show_nat.simps digit_chr_def
          digit_chars_def)
  have s2: "Date (event_on ''Last'' (Some ''2025-09-01'')) = Some (strftime ?last)"
    by (simp add: event_on_def strftime_def fmt_0d_def zfill_def show_nat.simps digit_chr_def
          digit_chars_def)
  have m: "event_on ''Last'' (Some ''2025-09-01'') \<in> set (extend_unique (extend_unique ?web []) [])"
    by (simp add: extend_unique_def)
  have A: "event_on ''Late'' (Some ''2025-09-02'') \<notin> set (get_all_events september_1_2024 ?web [] [])"
    using far_future_filter[of september_1_2024 ?late "event_on ''Late'' (Some ''2025-09-02'')" ?web "[]" "[]"]
      v o d1 s1 by blast
  have B: "event_on ''Last'' (Some ''2025-09-01'') \<in> set (get_all_events september_1_2024 ?web [] [])"
    using far_future_filter[of september_1_2024 ?last "event_on ''Last'' (Some ''2025-09-01'')" ?web "[]" "[]"]
      v o d2 s2 m by blast
  show ?thesis using A B by simp
qed

text \<open>
  C2 (as the code has it).  When the URL carries no date and no date pattern matches the
  description, \<open>date_text\<close> stays empty and nothing is raised; \<open>scrape_event\<close> then returns
  no event, because it returns an event only when both the name and the date are there.
\<close>

theorem no_date_no_event:
  "\<not> truthy (url_date_text event_url) \<and>
   (truthy (page_description pg) \<longrightarrow>
      first_match date_patterns (the (page_description pg)) = None) \<longrightarrow>
     \<not> truthy (scrape_date_text current_year event_url (page_description pg)) \<and>
     scrape_event current_year event_url pg = None"
proof (intro impI, elim conjE)
  assume u: "\<not> truthy (url_date_text event_url)"
    and f: "truthy (page_description pg) \<longrightarrow>
            first_match date_patterns (the (page_description pg)) = None"
  have "scrape_date_text current_year event_url (page_description pg) = url_date_text event_url"
  proof (cases "truthy (page_description pg)")
    case True
    then show ?thesis using f by (simp add: scrape_date_text_def Let_def)
  next
    case False
    then show ?thesis by (simp add: scrape_date_text_def Let_def)
  qed
  then show "\<not> truthy (scrape_date_text current_year event_url (page_description pg)) \<and>
             scrape_event current_year event_url pg = None"
    using u by (simp add: scrape_event_def Let_def)
qed

lemma jazz_page_no_date:
  "\<not> truthy (url_date_text jazz_url) \<and>
   first_match date_patterns (the (page_description jazz_page)) = None"
  by code_simp

theorem no_date_no_event_witness:
  "\<not> truthy (url_date_text jazz_url) \<and>
   first_match date_patterns (the (page_description jazz_page)) = None \<and>
   scrape_event 2024 jazz_url jazz_page = None"
proof -
  have u: "\<not> truthy (url_date_text jazz_url)"
    and f: "first_match date_patterns (the (page_description jazz_page)) = None"
    using jazz_page_no_date by simp_all
  show ?thesis using no_date_no_event[of jazz_url jazz_page 2024] u f by blast
qed

text \<open>
  C2 (as stated) fails.  A page with a name and a description without any date: the
  extraction gives no date, \<open>scrape_event\<close> returns no event for the page, and an event
  without a date does not pass the filter of \<open>get_all_events\<close> either.
\<close>

theorem undated_page_yields_no_event:
  "scrape_date_text 2024 jazz_url (page_description jazz_page) = None \<and>
   scrape_event 2024 jazz_url jazz_page = None \<and>
   get_all_events september_1_2024 [event_on ''Jazz Night'' None] [] [] = []"
proof -
  have "truthy (page_description jazz_page)" by (simp add: jazz_page_def)
  then have "scrape_date_text 2024 jazz_url (page_description jazz_page) = url_date_text jazz_url"
    using jazz_page_no_date by (simp add: scrape_date_text_def Let_def)
  moreover have "url_date_text jazz_url = None"
    by (simp add: url_date_text_def jazz_url_def)
  ultimately have a: "scrape_date_text 2024 jazz_url (page_description jazz_page) = None" by simp
  then have b: "scrape_event 2024 jazz_url jazz_page = None"
    by (simp add: scrape_event_def Let_def)
  have c: "get_all_events september_1_2024 [event_on ''Jazz Night'' None] [] [] = []"
    by (simp add: get_all_events_def filter_dates_def extend_unique_def event_on_def)
  show ?thesis using a b c by simp
qed

text \<open>
  The rule of \<open>_extract_events_from_text\<close>: a date more than 180 days before now moves to the
  next year, when that is a date.
\<close>

lemma text_date_rollover:
  "strptime_B_d_Y m d (show_nat (year now)) = Some date_obj \<Longrightarrow>
   180 < days_between now date_obj \<Longrightarrow> valid_date (date_obj\<lparr>year := year date_obj + 1\<rparr>) \<Longrightarrow>
   text_date_str now m d None = Some (strftime (date_obj\<lparr>year := year date_obj + 1\<rparr>))"
  by (simp add: text_date_str_def replace_year_def Let_def)

text \<open>
  C6 fails in \<open>scrape_event\<close>.  Now is 1 September 2024 and the description says "March 3":
  the date is 182 days in the past, \<open>_extract_events_from_text\<close> gives 2025-03-03 for this
  match, and \<open>scrape_event\<close>, which fills in the current year and has no rollover, gives
  2024-03-03.
\<close>

theorem scrape_event_no_rollover:
  "first_match date_patterns ''Join us March 3 for the oyster roast'' =
     Some (''March 3'', [Some ''March'', Some ''3'', None]) \<and>
   map_option Date (scrape_event 2024 roast_url roast_page) = Some (Some ''2024-03-03'') \<and>
   days_between september_1_2024 \<lparr>year = 2024, month = 3, day = 3\<rparr> = 182 \<and>
   text_date_str september_1_2024 ''March'' ''3'' None = Some ''2025-03-03''"
proof -
  have a: "first_match date_patterns ''Join us March 3 for the oyster roast'' =
             Some (''March 3'', [Some ''March'', Some ''3'', None])" by code_simp
  have b: "map_option Date (scrape_event 2024 roast_url roast_page) = Some (Some ''2024-03-03'')"
    by code_simp
  have c: "days_between september_1_2024 \<lparr>year = 2024, month = 3, day = 3\<rparr> = 182"
    by (simp add: september_1_2024_def days_between_def toordinal_def days_before_year_def
          days_before_month_def is_leap_def)
  have m: "full_month_num ''March'' = Some 3" by code_simp
  have y: "show_nat 2024 = ''2024''"
    by (simp add: show_nat.simps digit_chr_def digit_chars_def)
  have i: "int_of_digits ''2024'' = 2024" "int_of_digits ''3'' = 3"
    by (simp_all add: int_of_digits_def digit_val_def digit_chars_def)
  have g: "isdigit ''3''" "isdigit ''2024''"
    by (simp_all add: isdigit_def is_digit_chr_def digit_chars_def)
  have p: "strptime_B_d_Y ''March'' ''3'' (show_nat (year september_1_2024)) =
             Some \<lparr>year = 2024, month = 3, day = 3\<rparr>"
    using m y i g
    by (simp add: strptime_B_d_Y_def september_1_2024_def valid_date_def days_in_month_def Let_def)
  have v: "valid_date (\<lparr>year = 2024, month = 3, day = 3\<rparr>\<lparr>year := year \<lparr>year = 2024, month = 3, day = 3\<rparr> + 1\<rparr>)"
    by (simp add: valid_date_def days_in_month_def)
  have s: "strftime \<lparr>year = 2025, month = 3, day = 3\<rparr> = ''2025-03-03''"
    by (simp add: strftime_def fmt_0d_def zfill_def show_nat.simps digit_chr_def digit_chars_def)
  have d: "text_date_str september_1_2024 ''March'' ''3'' None = Some ''2025-03-03''"
    using text_date_rollover[OF p _ v] c s by simp
  show ?thesis using a b c d by simp
qed

end
